theory Spec2Isabelle
  imports Main "HOL-Library.Word"
begin

unbundle bit_operations_syntax

section \<open>Data model of persistence.cpp (file-based ARM backend)\<close>

text \<open>
  The store keeps a dense array of 4-byte float values in one of three rotating
  generation files. A float is modelled by its IEEE-754 binary32 bit pattern, a value
  index by the 16-bit \<open>index_t\<close> of config.h, a file by its byte list, and the file
  named \<open>filenames[i]\<close> by the number \<open>i\<close>.
\<close>

type_synonym byte = "8 word"
type_synonym index_t = "16 word"
type_synonym float32 = "32 word"

datatype stat_t = STAT_OK | STAT_NOOP | STAT_FILE_NOT_OPEN | STAT_PERSISTENCE_ERROR

datatype FRESULT = FR_OK | FR_DISK_ERR | FR_NO_FILE | FR_INVALID_OBJECT

text \<open>
  The cycle states of the canonical machine. Only \<open>CYCLE_OFF\<close> occurs in
  persistence.cpp; the other enumerators stand for "the machine is moving".
\<close>

datatype cmCycleState = CYCLE_OFF | CYCLE_MACHINING | CYCLE_PROBE | CYCLE_HOMING | CYCLE_JOG

definition NVM_VALUE_LEN :: nat where
  "NVM_VALUE_LEN = 4"

definition CRC_LEN :: nat where
  "CRC_LEN = 4"

definition PERSISTENCE_FILENAME_CNT :: nat where
  "PERSISTENCE_FILENAME_CNT = 3"

text \<open>
  The constants of persistence.h, the CRC32 primitive and the value of the constant
  expression \<open>(uint32_t)NAN\<close> (which C++ leaves undefined) are parameters of the model.
\<close>

record config =
  IO_BUFFER_SIZE :: nat
  MIN_WRITE_INTERVAL :: "32 word"
  MAX_WRITE_FAILURES :: nat
  crc32 :: "32 word \<Rightarrow> byte list \<Rightarrow> 32 word"
  nan_as_uint32 :: "32 word"

text \<open>The value object handed to the accessors: \<open>nv->index\<close> and \<open>nv->value\<close>.\<close>

record nvObj =
  nv_index :: index_t
  nv_value :: float32

text \<open>
  A FatFS file object: whether it is open (\<open>fp->fs != 0\<close>), the file it was opened on,
  the read/write pointer and the file size cached in the object. Closing an object only
  clears the open flag; pointer and size stay as they were.
\<close>

record FIL =
  fil_open :: bool
  fil_slot :: nat
  fptr :: nat
  fsize :: nat

text \<open>
  What one call into the filesystem driver meets: it passes, it fails with a disk error
  after transferring the given number of bytes, or the medium is full after the given
  number of bytes (a write then stores fewer bytes and still reports \<open>FR_OK\<close>).
\<close>

datatype fault = Pass | Fail nat | Full nat

text \<open>
  The state: the singleton \<open>nvm\<close>, the cycle state of \<open>cm\<close>, and the environment, that
  is the files on the card, the faults the coming driver calls will meet (none once the
  list is used up) and the exceptions reported through \<open>rpt_exception\<close>.
  The write cache is the \<open>std::map\<close> as its list of entries in ascending key order.
\<close>

record state =
  tmp_value :: float32
  fs_type :: bool
  nvm_file :: FIL
  file_index :: nat
  io_buffer :: "byte list"
  write_cache :: "(index_t \<times> float32) list"
  last_write_systick :: "32 word"
  write_failures :: nat
  cycle_state :: cmCycleState
  disk :: "nat \<Rightarrow> byte list option"
  faults :: "fault list"
  exceptions :: "stat_t list"

section \<open>Floats and their bytes\<close>

definition isnan :: "float32 \<Rightarrow> bool" where
  "isnan x \<longleftrightarrow> x AND 0x7F800000 = 0x7F800000 \<and> x AND 0x007FFFFF \<noteq> 0"

definition isinf :: "float32 \<Rightarrow> bool" where
  "isinf x \<longleftrightarrow> x AND 0x7FFFFFFF = 0x7F800000"

text \<open>The operator \<open>!=\<close> on floats: NaN differs from everything, the two zeros are equal.\<close>

definition float_ne :: "float32 \<Rightarrow> float32 \<Rightarrow> bool" where
  "float_ne a b \<longleftrightarrow>
     isnan a \<or> isnan b \<or> (a \<noteq> b \<and> \<not> (a AND 0x7FFFFFFF = 0 \<and> b AND 0x7FFFFFFF = 0))"

text \<open>\<open>memcpy\<close> between a 32-bit object and four bytes, little-endian as on the ARM target.\<close>

definition word_bytes :: "32 word \<Rightarrow> byte list" where
  "word_bytes w = [ucast w, ucast (drop_bit 8 w), ucast (drop_bit 16 w), ucast (drop_bit 24 w)]"

definition bytes_word :: "byte list \<Rightarrow> 32 word" where
  "bytes_word bs =
     ucast (bs ! 0) OR push_bit 8 (ucast (bs ! 1)) OR push_bit 16 (ucast (bs ! 2))
       OR push_bit 24 (ucast (bs ! 3))"

text \<open>\<open>memcpy(buf + off, bs, length bs)\<close> and \<open>memset(buf + off, 0, n)\<close> inside the buffer.\<close>

definition store_bytes :: "nat \<Rightarrow> byte list \<Rightarrow> byte list \<Rightarrow> byte list" where
  "store_bytes off bs buf = take off buf @ bs @ drop (off + length bs) buf"

definition memset0 :: "nat \<Rightarrow> nat \<Rightarrow> byte list \<Rightarrow> byte list" where
  "memset0 off n buf = store_bytes off (replicate n 0) buf"

section \<open>The filesystem driver (FatFS), as persistence.cpp uses it\<close>

definition next_fault :: "state \<Rightarrow> fault \<times> state" where
  "next_fault s = (case faults s of [] \<Rightarrow> (Pass, s) | f # fs \<Rightarrow> (f, s\<lparr>faults := fs\<rparr>))"

definition is_fail :: "fault \<Rightarrow> bool" where
  "is_fail f = (case f of Fail n \<Rightarrow> True | _ \<Rightarrow> False)"

definition file_data :: "state \<Rightarrow> nat \<Rightarrow> byte list" where
  "file_data s i = (case disk s i of None \<Rightarrow> [] | Some d \<Rightarrow> d)"

text \<open>
  \<open>filenames\<close> has three entries, and a file is named by its position in that array. The
  driver is only ever handed \<open>filenames[i]\<close>: reading the array at an index of three or more
  is undefined behaviour, and the two places of the source where that can happen
  (\<open>prepare_persistence_file\<close> and the end of \<open>write_persistent_values\<close>) make the run
  undefined there, before the driver is called.
\<close>

definition file_exists :: "state \<Rightarrow> nat \<Rightarrow> bool" where
  "file_exists s i \<longleftrightarrow> disk s i \<noteq> None"

definition f_is_open :: "FIL \<Rightarrow> bool" where
  "f_is_open fp = fil_open fp"

definition f_eof :: "FIL \<Rightarrow> bool" where
  "f_eof fp \<longleftrightarrow> fptr fp = fsize fp"

definition f_remain :: "FIL \<Rightarrow> 32 word" where
  "f_remain fp = word_of_nat (fsize fp) - word_of_nat (fptr fp)"

definition f_polldisk :: "state \<Rightarrow> state" where
  "f_polldisk s = s"

definition f_mount :: "state \<Rightarrow> FRESULT \<times> state" where
  "f_mount s =
     (case next_fault s of (f, s1) \<Rightarrow>
        if is_fail f then (FR_DISK_ERR, s1\<lparr>fs_type := False\<rparr>)
        else (FR_OK, s1\<lparr>fs_type := True\<rparr>))"

definition f_mkdir :: "state \<Rightarrow> FRESULT \<times> state" where
  "f_mkdir s = (case next_fault s of (f, s1) \<Rightarrow> (if is_fail f then FR_DISK_ERR else FR_OK, s1))"

definition f_stat :: "nat \<Rightarrow> state \<Rightarrow> FRESULT \<times> state" where
  "f_stat i s =
     (case next_fault s of (f, s1) \<Rightarrow>
        (if is_fail f then FR_DISK_ERR else if file_exists s i then FR_OK else FR_NO_FILE, s1))"

definition f_unlink :: "nat \<Rightarrow> state \<Rightarrow> FRESULT \<times> state" where
  "f_unlink i s =
     (case next_fault s of (f, s1) \<Rightarrow>
        if is_fail f then (FR_DISK_ERR, s1)
        else if file_exists s i then (FR_OK, s1\<lparr>disk := (disk s1)(i := None)\<rparr>)
        else (FR_NO_FILE, s1))"

text \<open>\<open>f_open(&nvm.file, filenames[i], FA_READ | FA_OPEN_EXISTING)\<close>\<close>

definition f_open_read :: "nat \<Rightarrow> state \<Rightarrow> FRESULT \<times> state" where
  "f_open_read i s =
     (case next_fault s of (f, s1) \<Rightarrow>
        if is_fail f then (FR_DISK_ERR, s1\<lparr>nvm_file := (nvm_file s1)\<lparr>fil_open := False\<rparr>\<rparr>)
        else if file_exists s i
        then (FR_OK, s1\<lparr>nvm_file := \<lparr>fil_open = True, fil_slot = i, fptr = 0,
                                   fsize = length (file_data s i)\<rparr>\<rparr>)
        else (FR_NO_FILE, s1\<lparr>nvm_file := (nvm_file s1)\<lparr>fil_open := False\<rparr>\<rparr>))"

text \<open>
  \<open>f_open(&f_out, filenames[i], FA_WRITE | FA_OPEN_ALWAYS)\<close>: an existing file is opened
  as it is (not truncated), a missing one is created empty.
\<close>

definition f_open_write :: "nat \<Rightarrow> state \<Rightarrow> FRESULT \<times> FIL \<times> state" where
  "f_open_write i s =
     (case next_fault s of (f, s1) \<Rightarrow>
        if is_fail f
        then (FR_DISK_ERR, \<lparr>fil_open = False, fil_slot = i, fptr = 0, fsize = 0\<rparr>, s1)
        else (FR_OK, \<lparr>fil_open = True, fil_slot = i, fptr = 0, fsize = length (file_data s i)\<rparr>,
              s1\<lparr>disk := (disk s1)(i \<mapsto> file_data s i)\<rparr>))"

text \<open>\<open>validate(&nvm.file)\<close>: the object is open and the card still answers.\<close>

definition validate :: "state \<Rightarrow> FRESULT \<times> state" where
  "validate s =
     (if \<not> fil_open (nvm_file s) then (FR_INVALID_OBJECT, s)
      else case next_fault s of (f, s1) \<Rightarrow> (if is_fail f then FR_DISK_ERR else FR_OK, s1))"

text \<open>
  \<open>f_lseek(&nvm.file, ofs)\<close>: on a file opened for reading the pointer stops at the
  end of the file.
\<close>

definition f_lseek :: "nat \<Rightarrow> state \<Rightarrow> FRESULT \<times> state" where
  "f_lseek ofs s =
     (if \<not> fil_open (nvm_file s) then (FR_INVALID_OBJECT, s)
      else case next_fault s of (f, s1) \<Rightarrow>
        if is_fail f then (FR_DISK_ERR, s1)
        else (FR_OK, s1\<lparr>nvm_file := (nvm_file s1)\<lparr>fptr := min ofs (fsize (nvm_file s1))\<rparr>\<rparr>))"

text \<open>
  The \<open>n\<close> bytes of a file from position \<open>p\<close> on (zeros where the file on the card is
  shorter than the size cached in the file object).
\<close>

definition read_bytes :: "byte list \<Rightarrow> nat \<Rightarrow> nat \<Rightarrow> byte list" where
  "read_bytes data p n = take n (drop p data @ replicate n 0)"

text \<open>
  \<open>f_read(&nvm.file, &nvm.io_buffer, btr, &br)\<close>: \<open>br\<close> is set to 0 first; a closed
  object is refused; otherwise at most the bytes up to the cached file size are
  transferred into the io buffer, fewer when the driver fails on the way. The result is
  the status, \<open>br\<close> and the new state.
\<close>

definition f_read :: "nat \<Rightarrow> state \<Rightarrow> FRESULT \<times> nat \<times> state" where
  "f_read btr s =
     (if \<not> fil_open (nvm_file s) then (FR_INVALID_OBJECT, 0, s)
      else case next_fault s of (f, s1) \<Rightarrow>
        let fp = nvm_file s1;
            avail = min btr (fsize fp - fptr fp);
            br = (case f of Fail n \<Rightarrow> min n avail | _ \<Rightarrow> avail);
            bytes = read_bytes (file_data s1 (fil_slot fp)) (fptr fp) br
        in (if is_fail f then FR_DISK_ERR else FR_OK, br,
            s1\<lparr>nvm_file := fp\<lparr>fptr := fptr fp + br\<rparr>, io_buffer := store_bytes 0 bytes (io_buffer s1)\<rparr>))"

text \<open>
  \<open>f_write(&f_out, bytes, length bytes, &bw)\<close> on the local output object: the result is
  the status, \<open>bw\<close>, the object and the new state.
\<close>

definition f_write :: "FIL \<Rightarrow> byte list \<Rightarrow> state \<Rightarrow> FRESULT \<times> nat \<times> FIL \<times> state" where
  "f_write fp bytes s =
     (if \<not> fil_open fp then (FR_INVALID_OBJECT, 0, fp, s)
      else case next_fault s of (f, s1) \<Rightarrow>
        let bw = (case f of Pass \<Rightarrow> length bytes | Fail n \<Rightarrow> min n (length bytes)
                    | Full n \<Rightarrow> min n (length bytes));
            old = file_data s1 (fil_slot fp);
            new = take (fptr fp) old @ take bw bytes @ drop (fptr fp + bw) old
        in (if is_fail f then FR_DISK_ERR else FR_OK, bw,
            fp\<lparr>fptr := fptr fp + bw, fsize := max (fsize fp) (fptr fp + bw)\<rparr>,
            s1\<lparr>disk := (disk s1)(fil_slot fp \<mapsto> new)\<rparr>))"

definition f_sync :: "FIL \<Rightarrow> state \<Rightarrow> FRESULT \<times> state" where
  "f_sync fp s =
     (if \<not> fil_open fp then (FR_INVALID_OBJECT, s)
      else case next_fault s of (f, s1) \<Rightarrow> (if is_fail f then FR_DISK_ERR else FR_OK, s1))"

text \<open>\<open>f_close(&f_out)\<close> on the local output object.\<close>

definition f_close_out :: "FIL \<Rightarrow> state \<Rightarrow> FRESULT \<times> FIL \<times> state" where
  "f_close_out fp s =
     (if \<not> fil_open fp then (FR_INVALID_OBJECT, fp, s)
      else case next_fault s of (f, s1) \<Rightarrow>
        if is_fail f then (FR_DISK_ERR, fp, s1) else (FR_OK, fp\<lparr>fil_open := False\<rparr>, s1))"

text \<open>\<open>f_close(&nvm.file)\<close>\<close>

definition f_close :: "state \<Rightarrow> FRESULT \<times> state" where
  "f_close s =
     (if \<not> fil_open (nvm_file s) then (FR_INVALID_OBJECT, s)
      else case next_fault s of (f, s1) \<Rightarrow>
        if is_fail f then (FR_DISK_ERR, s1)
        else (FR_OK, s1\<lparr>nvm_file := (nvm_file s1)\<lparr>fil_open := False\<rparr>\<rparr>))"

text \<open>\<open>rpt_exception(status, NULL)\<close> reports the status and hands it back.\<close>

definition rpt_exception :: "stat_t \<Rightarrow> state \<Rightarrow> stat_t \<times> state" where
  "rpt_exception st s = (st, s\<lparr>exceptions := exceptions s @ [st]\<rparr>)"

section \<open>The functions of persistence.cpp\<close>

definition NEXT_FILE_INDEX :: "state \<Rightarrow> nat" where
  "NEXT_FILE_INDEX s = (file_index s + 1) mod PERSISTENCE_FILENAME_CNT"

definition PREV_FILE_INDEX :: "state \<Rightarrow> nat" where
  "PREV_FILE_INDEX s = (file_index s + PERSISTENCE_FILENAME_CNT - 1) mod PERSISTENCE_FILENAME_CNT"

definition persistence_init :: "32 word \<Rightarrow> state \<Rightarrow> state" where
  "persistence_init now s = s\<lparr>file_index := 0, last_write_systick := now, write_failures := 0\<rparr>"

subsection \<open>active_file_index\<close>

text \<open>The \<open>for\<close> loop of \<open>active_file_index\<close>, entered with the loop variable \<open>i\<close>.\<close>

function active_file_index_loop :: "nat \<Rightarrow> state \<Rightarrow> nat \<times> state" where
  "active_file_index_loop i s =
     (if i < PERSISTENCE_FILENAME_CNT then
        (case f_stat i s of (r, s1) \<Rightarrow>
           if r = FR_OK then
             (let next = (i + 1) mod PERSISTENCE_FILENAME_CNT in
              if next > i then
                (case f_stat next s1 of (r2, s2) \<Rightarrow> if r2 = FR_OK then (next, s2) else (i, s2))
              else (i, s1))
           else active_file_index_loop (i + 1) s1)
      else (i, s))"
  by pat_completeness auto
termination
  by (relation "measure (\<lambda>(i, s). PERSISTENCE_FILENAME_CNT - i)") auto

definition active_file_index :: "state \<Rightarrow> nat \<times> state" where
  "active_file_index s = active_file_index_loop 0 s"

subsection \<open>check_persistence_file_crc\<close>

text \<open>
  The \<open>while (!f_eof(&nvm.file))\<close> loop, with the running \<open>crc\<close> and \<open>filecrc\<close>. The
  result \<open>None\<close> stands for a run that does not return: the loop never ends, or the
  chunk that reaches the end of the file holds fewer than \<open>CRC_LEN\<close> bytes, so that
  \<open>br -= CRC_LEN\<close> wraps around and \<open>memcpy\<close> and \<open>crc32\<close> leave the io buffer.
\<close>

partial_function (option) crc_loop ::
  "config \<Rightarrow> 32 word \<Rightarrow> 32 word \<Rightarrow> state \<Rightarrow> (stat_t \<times> 32 word \<times> 32 word \<times> state) option" where
  "crc_loop cfg crc filecrc s =
     (if f_eof (nvm_file s) then Some (STAT_OK, crc, filecrc, s)
      else case f_read (IO_BUFFER_SIZE cfg) s of (r, br, s1) \<Rightarrow>
        if r \<noteq> FR_OK then Some (STAT_PERSISTENCE_ERROR, crc, filecrc, s1)
        else if f_eof (nvm_file s1) then
          (if br < CRC_LEN then None
           else crc_loop cfg (crc32 cfg crc (take (br - CRC_LEN) (io_buffer s1)))
                  (bytes_word (take CRC_LEN (drop (br - CRC_LEN) (io_buffer s1)))) s1)
        else crc_loop cfg (crc32 cfg crc (take br (io_buffer s1))) filecrc s1)"

definition check_persistence_file_crc :: "config \<Rightarrow> state \<Rightarrow> (stat_t \<times> state) option" where
  "check_persistence_file_crc cfg s =
     (case f_lseek 0 s of (r, s1) \<Rightarrow>
        if r \<noteq> FR_OK then Some (STAT_PERSISTENCE_ERROR, s1)
        else (case crc_loop cfg 0 (nan_as_uint32 cfg) s1 of
                None \<Rightarrow> None
              | Some (st, crc, filecrc, s2) \<Rightarrow>
                  if st \<noteq> STAT_OK then Some (st, s2)
                  else Some (if crc = filecrc then STAT_OK else STAT_PERSISTENCE_ERROR, s2)))"

subsection \<open>prepare_persistence_file\<close>

text \<open>
  \<open>f_open(&nvm.file, filenames[index], ...)\<close> reads the array at the index that
  \<open>active_file_index\<close> returned. When no generation file was found that index is
  \<open>PERSISTENCE_FILENAME_CNT\<close>, one past the last name: the read is out of bounds and the run
  is undefined, \<open>None\<close>. The later \<open>filenames[nvm.file_index]\<close> reads the index that was
  just stored, which is in range; \<open>PREV_FILE_INDEX\<close> and \<open>NEXT_FILE_INDEX\<close> are remainders
  modulo the length of the array.
\<close>

definition prepare_persistence_file :: "config \<Rightarrow> state \<Rightarrow> (stat_t \<times> state) option" where
  "prepare_persistence_file cfg s =
     (case (if f_is_open (nvm_file s) then validate s else (FR_INVALID_OBJECT, s)) of (r0, s0) \<Rightarrow>
      if f_is_open (nvm_file s) \<and> r0 = FR_OK then Some (STAT_OK, s0)
      else case (if \<not> fs_type s0 then f_mount s0 else (FR_OK, s0)) of (r1, s1) \<Rightarrow>
        if r1 \<noteq> FR_OK then Some (STAT_PERSISTENCE_ERROR, s1)
        else case active_file_index (snd (f_mkdir s1)) of (index, s3) \<Rightarrow>
          if \<not> index < PERSISTENCE_FILENAME_CNT then None
          else case f_open_read index s3 of (r2, s4) \<Rightarrow>
            if r2 \<noteq> FR_OK then Some (STAT_PERSISTENCE_ERROR, s4)
            else (case check_persistence_file_crc cfg (s4\<lparr>file_index := index\<rparr>) of
                    None \<Rightarrow> None
                  | Some (st, s6) \<Rightarrow>
                      if st \<noteq> STAT_OK then
                        (let s7 = snd (f_close s6);
                             s8 = snd (f_unlink (file_index s7) s7)
                         in Some (STAT_PERSISTENCE_ERROR, s8\<lparr>file_index := 0\<rparr>))
                      else Some (STAT_OK, snd (f_unlink (PREV_FILE_INDEX s6) s6))))"

subsection \<open>read_persistent_value and write_persistent_value\<close>

definition read_persistent_value :: "config \<Rightarrow> nvObj \<Rightarrow> state \<Rightarrow> (stat_t \<times> nvObj \<times> state) option" where
  "read_persistent_value cfg nv s =
     (case prepare_persistence_file cfg s of
        None \<Rightarrow> None
      | Some (st, s1) \<Rightarrow>
          if st \<noteq> STAT_OK then Some (st, nv, s1)
          else case f_lseek (unat (nv_index nv) * NVM_VALUE_LEN) s1 of (r, s2) \<Rightarrow>
            if r \<noteq> FR_OK then Some (STAT_PERSISTENCE_ERROR, nv, s2)
            else case f_read NVM_VALUE_LEN s2 of (r', br, s3) \<Rightarrow>
              if r' \<noteq> FR_OK then Some (STAT_PERSISTENCE_ERROR, nv, s3)
              else if br \<noteq> NVM_VALUE_LEN then Some (STAT_PERSISTENCE_ERROR, nv, s3)
              else Some (STAT_OK,
                         nv\<lparr>nv_value := bytes_word (take NVM_VALUE_LEN (io_buffer s3))\<rparr>, s3))"

text \<open>
  \<open>std::map::insert\<close>: the pair is inserted at its place in key order unless the map
  already holds an entry with that key; then the map is left as it is.
\<close>

fun map_insert :: "index_t \<times> float32 \<Rightarrow> (index_t \<times> float32) list \<Rightarrow> (index_t \<times> float32) list" where
  "map_insert p [] = [p]"
| "map_insert p (q # qs) =
     (if fst p < fst q then p # q # qs
      else if fst p = fst q then q # qs
      else q # map_insert p qs)"

definition write_persistent_value :: "config \<Rightarrow> nvObj \<Rightarrow> state \<Rightarrow> (stat_t \<times> nvObj \<times> state) option" where
  "write_persistent_value cfg nv s =
     (case read_persistent_value cfg nv (s\<lparr>tmp_value := nv_value nv\<rparr>) of
        None \<Rightarrow> None
      | Some (st, nv1, s1) \<Rightarrow>
          let s2 = (if st \<noteq> STAT_OK \<or> isnan (nv_value nv1) \<or> isinf (nv_value nv1)
                       \<or> float_ne (nv_value nv1) (tmp_value s1)
                    then s1\<lparr>write_cache := map_insert (nv_index nv1, tmp_value s1) (write_cache s1)\<rparr>
                    else s1)
          in Some (STAT_OK, nv1\<lparr>nv_value := tmp_value s2\<rparr>, s2))"

subsection \<open>write_persistent_values\<close>

text \<open>
  The inner \<open>for\<close> loop over the cache snapshot, from \<open>lower_bound(cnt)\<close> to
  \<open>lower_bound(cnt+step)\<close>, the bound converted to \<open>index_t\<close>. The result is the entries
  visited (and erased) and the snapshot left. When the end position lies before the start
  position the iterator runs off the end of the map: that run is \<open>None\<close>.
\<close>

definition lower_bound :: "index_t \<Rightarrow> (index_t \<times> float32) list \<Rightarrow> nat" where
  "lower_bound k xs = length (takeWhile (\<lambda>p. fst p < k) xs)"

definition window_entries ::
  "index_t \<Rightarrow> index_t \<Rightarrow> (index_t \<times> float32) list
     \<Rightarrow> ((index_t \<times> float32) list \<times> (index_t \<times> float32) list) option" where
  "window_entries cnt step xs =
     (let lo = lower_bound cnt xs; hi = lower_bound (cnt + step) xs
      in if hi < lo then None
         else Some (take (hi - lo) (drop lo xs), take lo xs @ drop hi xs))"

text \<open>
  The body of the inner loop for one entry: \<open>index = (i->first - cnt) * NVM_VALUE_LEN\<close>,
  computed in \<open>int\<close> and stored in an \<open>index_t\<close>, then \<open>memcpy\<close> of the value into the
  buffer. A copy that would leave the buffer is \<open>None\<close>.
\<close>

fun overlay :: "index_t \<Rightarrow> (index_t \<times> float32) list \<Rightarrow> byte list \<Rightarrow> byte list option" where
  "overlay cnt [] buf = Some buf"
| "overlay cnt (p # ps) buf =
     (let index = nat (((int (unat (fst p)) - int (unat cnt)) * int NVM_VALUE_LEN) mod 65536)
      in if index + NVM_VALUE_LEN \<le> length buf
         then overlay cnt ps (store_bytes index (word_bytes (snd p)) buf)
         else None)"

text \<open>
  One pass through the body of the window loop. \<open>Inl\<close> is an early return of
  \<open>write_persistent_values\<close> with its status, \<open>Inr\<close> the loop state (\<open>cnt\<close>, snapshot,
  \<open>crc\<close>, output file object, state) for the next test of the loop condition.
\<close>

definition io_byte_count :: "config \<Rightarrow> state \<Rightarrow> nat" where
  "io_byte_count cfg s =
     (if f_is_open (nvm_file s)
      then min (IO_BUFFER_SIZE cfg) (unat (f_remain (nvm_file s) - word_of_nat CRC_LEN))
      else IO_BUFFER_SIZE cfg) mod 65536"

definition window_body ::
  "config \<Rightarrow> index_t \<Rightarrow> index_t \<Rightarrow> (index_t \<times> float32) list \<Rightarrow> 32 word \<Rightarrow> FIL \<Rightarrow> state
     \<Rightarrow> ((stat_t \<times> state) + (index_t \<times> (index_t \<times> float32) list \<times> 32 word \<times> FIL \<times> state)) option" where
  "window_body cfg step cnt temp crc f_out s =
     (let n = io_byte_count cfg s in
      case f_read n s of (r, bw, s1) \<Rightarrow>
      (let s2 = s1\<lparr>io_buffer := memset0 bw (n - bw) (io_buffer s1)\<rparr> in
       (case window_entries cnt step temp of
          None \<Rightarrow> None
        | Some (entries, temp') \<Rightarrow>
            (case overlay cnt entries (io_buffer s2) of
               None \<Rightarrow> None
             | Some buf \<Rightarrow>
                 (case f_write f_out (take n buf) (s2\<lparr>io_buffer := buf\<rparr>) of (r', bw', f_out1, s4) \<Rightarrow>
                    if r' \<noteq> FR_OK then Some (Inl (STAT_PERSISTENCE_ERROR, s4))
                    else if bw' \<noteq> n then Some (Inl (STAT_PERSISTENCE_ERROR, s4))
                    else (case f_sync f_out1 s4 of (r'', s5) \<Rightarrow>
                      if r'' \<noteq> FR_OK then Some (Inl (STAT_PERSISTENCE_ERROR, s5))
                      else Some (Inr (cnt + step, temp', crc32 cfg crc (take n buf), f_out1, s5))))))))"

text \<open>
  The window loop \<open>for (cnt = 0; temp_write_cache.size() || f_remain(&nvm.file) > CRC_LEN;
  cnt += step)\<close>. A loop that never ends is \<open>None\<close>.
\<close>

partial_function (option) window_loop ::
  "config \<Rightarrow> index_t \<Rightarrow> index_t \<Rightarrow> (index_t \<times> float32) list \<Rightarrow> 32 word \<Rightarrow> FIL \<Rightarrow> state
     \<Rightarrow> ((stat_t \<times> state) + (32 word \<times> FIL \<times> state)) option" where
  "window_loop cfg step cnt temp crc f_out s =
     (if temp \<noteq> [] \<or> f_remain (nvm_file s) > word_of_nat CRC_LEN then
        (case window_body cfg step cnt temp crc f_out s of
           None \<Rightarrow> None
         | Some (Inl e) \<Rightarrow> Some (Inl e)
         | Some (Inr (cnt', temp', crc', f_out', s')) \<Rightarrow> window_loop cfg step cnt' temp' crc' f_out' s')
      else Some (Inr (crc, f_out, s)))"

text \<open>
  The last call, \<open>f_unlink(filenames[nvm.file_index])\<close>, reads the array at the index kept
  in the state; an index of three or more there is out of bounds and the run is \<open>None\<close>.
\<close>

definition write_persistent_values :: "config \<Rightarrow> state \<Rightarrow> (stat_t \<times> state) option" where
  "write_persistent_values cfg s =
     (if cycle_state s \<noteq> CYCLE_OFF then Some (rpt_exception STAT_FILE_NOT_OPEN s)
      else (case prepare_persistence_file cfg s of
        None \<Rightarrow> None
      | Some (st, s1) \<Rightarrow>
         (case (if st = STAT_OK then f_lseek 0 s1 else (FR_OK, s1)) of (r, s2) \<Rightarrow>
          if r \<noteq> FR_OK then Some (STAT_PERSISTENCE_ERROR, s2)
          else (case f_open_write (NEXT_FILE_INDEX s2) s2 of (r1, f_out, s3) \<Rightarrow>
          if r1 \<noteq> FR_OK then Some (STAT_PERSISTENCE_ERROR, s3)
          else (case f_sync f_out s3 of (r2, s4) \<Rightarrow>
          if r2 \<noteq> FR_OK then Some (STAT_PERSISTENCE_ERROR, s4)
          else (case window_loop cfg (word_of_nat (IO_BUFFER_SIZE cfg div NVM_VALUE_LEN)) 0
                      (write_cache s4) 0 f_out s4 of
            None \<Rightarrow> None
          | Some (Inl e) \<Rightarrow> Some e
          | Some (Inr (crc, f_out1, s5)) \<Rightarrow>
             (case f_write f_out1 (word_bytes crc) s5 of (r3, bw, f_out2, s6) \<Rightarrow>
              if r3 \<noteq> FR_OK then Some (STAT_PERSISTENCE_ERROR, s6)
              else (case f_close_out f_out2 s6 of (r4, f_out3, s7) \<Rightarrow>
              if r4 \<noteq> FR_OK then Some (STAT_PERSISTENCE_ERROR, s7)
              else if f_is_open (nvm_file s7) then
                (case f_close s7 of (r5, s8) \<Rightarrow>
                 if r5 \<noteq> FR_OK then Some (STAT_PERSISTENCE_ERROR, s8)
                 else if \<not> file_index s8 < PERSISTENCE_FILENAME_CNT then None
                 else (case f_unlink (file_index s8) s8 of (r6, s9) \<Rightarrow>
                 if r6 \<noteq> FR_OK then Some (STAT_PERSISTENCE_ERROR, s9)
                 else Some (STAT_OK, s9\<lparr>file_index := 0\<rparr>)))
              else Some (STAT_OK, s7)))))))))"

subsection \<open>write_persistent_values_callback\<close>

text \<open>
  The two readings of \<open>SysTickTimer_getValue()\<close>, before and after the flush, are the
  arguments \<open>t0\<close> and \<open>t1\<close>.
\<close>

definition write_persistent_values_callback ::
  "config \<Rightarrow> 32 word \<Rightarrow> 32 word \<Rightarrow> state \<Rightarrow> (stat_t \<times> state) option" where
  "write_persistent_values_callback cfg t0 t1 s =
     (let s0 = f_polldisk s in
      if write_cache s0 \<noteq> [] then
        if t0 - last_write_systick s0 < MIN_WRITE_INTERVAL cfg then Some (STAT_NOOP, s0)
        else case write_persistent_values cfg s0 of
          None \<Rightarrow> None
        | Some (st, s1) \<Rightarrow>
            let s2 = (if st = STAT_OK then s1\<lparr>write_cache := [], write_failures := 0\<rparr>
                      else let s1' = snd (f_unlink (NEXT_FILE_INDEX s1) s1);
                               s1'' = s1'\<lparr>write_failures := write_failures s1' + 1\<rparr>
                           in if write_failures s1'' \<ge> MAX_WRITE_FAILURES cfg
                              then s1''\<lparr>write_cache := [], write_failures := 0\<rparr>
                              else s1'')
            in Some (STAT_OK, s2\<lparr>last_write_systick := t1\<rparr>)
      else Some (STAT_NOOP, s0))"

section \<open>A configuration to run the model on\<close>

text \<open>
  The reflected CRC-32 (polynomial \<open>0xEDB88320\<close>) with the calling convention
  \<open>crc32(crc, buf, len)\<close>, a 200-byte io buffer, three write failures allowed, and the
  start state left by \<open>persistence_init\<close> on a card with the given files.
\<close>

definition crc32_bit :: "32 word \<Rightarrow> 32 word" where
  "crc32_bit c = (if bit c 0 then drop_bit 1 c XOR 0xEDB88320 else drop_bit 1 c)"

definition crc32_byte :: "32 word \<Rightarrow> byte \<Rightarrow> 32 word" where
  "crc32_byte c b = (crc32_bit ^^ 8) (c XOR ucast b)"

definition crc32_zlib :: "32 word \<Rightarrow> byte list \<Rightarrow> 32 word" where
  "crc32_zlib crc buf = NOT (fold (\<lambda>b c. crc32_byte c b) buf (NOT crc))"

definition cfg200 :: config where
  "cfg200 = \<lparr>IO_BUFFER_SIZE = 200, MIN_WRITE_INTERVAL = 1000, MAX_WRITE_FAILURES = 3,
             crc32 = crc32_zlib, nan_as_uint32 = 0\<rparr>"

definition init_state :: "config \<Rightarrow> (nat \<Rightarrow> byte list option) \<Rightarrow> state" where
  "init_state cfg d =
     \<lparr>tmp_value = 0, fs_type = False,
      nvm_file = \<lparr>fil_open = False, fil_slot = 0, fptr = 0, fsize = 0\<rparr>,
      file_index = 0, io_buffer = replicate (IO_BUFFER_SIZE cfg) 0, write_cache = [],
      last_write_systick = 0, write_failures = 0, cycle_state = CYCLE_OFF,
      disk = d, faults = [], exceptions = []\<rparr>"

text \<open>
  A generation file with 1.0 at index 0 and zeros up to index 49, and a card that holds it
  as persist0.bin with the trailer that \<open>write_persistent_values\<close> appends.
\<close>

definition gen200 :: "byte list" where
  "gen200 = word_bytes 0x3F800000 @ replicate 196 0"

definition valid_card :: "nat \<Rightarrow> byte list option" where
  "valid_card = (\<lambda>i. None)(0 \<mapsto> gen200 @ word_bytes (crc32_zlib 0 gen200))"

text \<open>
  States to run the model on: that card with a pending write of 1.0 for index 7; the same
  when the card has stopped answering, so that mounting it fails and opening the output
  file fails; a moving machine with a generation file whose trailer does not match; a card
  that holds the generation as persist1.bin with the lowest bit of the trailer flipped.
\<close>

definition pending_state :: state where
  "pending_state = (init_state cfg200 valid_card)\<lparr>write_cache := [(7, 0x3F800000)]\<rparr>"

definition disk_error_state :: state where
  "disk_error_state = pending_state\<lparr>faults := [Fail 0, Fail 0]\<rparr>"

definition moving_state :: state where
  "moving_state =
     (init_state cfg200 ((\<lambda>i. None)(0 \<mapsto> [1, 0, 0, 0])))\<lparr>cycle_state := CYCLE_MACHINING\<rparr>"

definition corrupt_state :: state where
  "corrupt_state =
     init_state cfg200 ((\<lambda>i. None)(1 \<mapsto> gen200 @ word_bytes (crc32_zlib 0 gen200 XOR 1)))"

section \<open>Predicates of the statements\<close>

text \<open>
  \<open>kept s s'\<close>: the step from \<open>s\<close> to \<open>s'\<close> left the write cache, the failure counter,
  \<open>tmp_value\<close>, the cycle state, the reported exceptions and the time of the last write
  as they were.
\<close>

definition kept :: "state \<Rightarrow> state \<Rightarrow> bool" where
  "kept s s' \<longleftrightarrow>
     write_cache s' = write_cache s \<and> write_failures s' = write_failures s \<and>
     tmp_value s' = tmp_value s \<and> cycle_state s' = cycle_state s \<and>
     exceptions s' = exceptions s \<and> last_write_systick s' = last_write_systick s"

text \<open>The write cache is a \<open>std::map\<close>: its keys are strictly ascending.\<close>

definition cache_ok :: "(index_t \<times> float32) list \<Rightarrow> bool" where
  "cache_ok xs \<longleftrightarrow> sorted_wrt (<) (map fst xs)"

text \<open>
  \<open>tail_ok cfg n\<close>: read in chunks of \<open>IO_BUFFER_SIZE\<close>, a file of \<open>n\<close> bytes ends in
  a chunk that holds the whole trailer (or is empty). \<open>files_ok\<close>: the io buffer holds a
  trailer, and each of the three generation files, where present, is of such a length.
  On other files \<open>check_persistence_file_crc\<close> leaves the io buffer (see \<open>crc_loop\<close>).
\<close>

definition tail_ok :: "config \<Rightarrow> nat \<Rightarrow> bool" where
  "tail_ok cfg n \<longleftrightarrow> n mod IO_BUFFER_SIZE cfg = 0 \<or> CRC_LEN \<le> n mod IO_BUFFER_SIZE cfg"

definition files_ok :: "config \<Rightarrow> state \<Rightarrow> bool" where
  "files_ok cfg s \<longleftrightarrow>
     CRC_LEN \<le> IO_BUFFER_SIZE cfg \<and> tail_ok cfg (length (file_data s 0)) \<and>
     tail_ok cfg (length (file_data s 1)) \<and> tail_ok cfg (length (file_data s 2))"

text \<open>
  What the model needs of the CRC32 primitive: it can be computed in pieces, and over no
  bytes it returns the running value.
\<close>

definition crc_streams :: "config \<Rightarrow> bool" where
  "crc_streams cfg \<longleftrightarrow>
     (\<forall>c a b. crc32 cfg (crc32 cfg c a) b = crc32 cfg c (a @ b)) \<and> (\<forall>c. crc32 cfg c [] = c)"

section \<open>Frame of the filesystem calls\<close>

lemma kept_refl [simp]: "kept s s"
  by (simp add: kept_def)

lemma kept_trans: "kept s s1 \<Longrightarrow> kept s1 s2 \<Longrightarrow> kept s s2"
  by (simp add: kept_def)

lemma kept_next_fault: "next_fault s = (f, s') \<Longrightarrow> kept s s'"
  by (auto simp: next_fault_def kept_def split: list.splits)

lemma kept_f_mount: "f_mount s = (r, s') \<Longrightarrow> kept s s'"
  by (auto simp: f_mount_def next_fault_def kept_def split: list.splits if_splits)

lemma kept_f_mkdir: "kept s (snd (f_mkdir s))"
  by (auto simp: f_mkdir_def next_fault_def kept_def split: list.splits if_splits)

lemma kept_f_stat: "f_stat i s = (r, s') \<Longrightarrow> kept s s'"
  by (auto simp: f_stat_def next_fault_def kept_def split: list.splits if_splits)

lemma kept_f_unlink: "f_unlink i s = (r, s') \<Longrightarrow> kept s s'"
  by (auto simp: f_unlink_def next_fault_def kept_def split: list.splits if_splits)

lemma kept_f_open_read: "f_open_read i s = (r, s') \<Longrightarrow> kept s s'"
  by (auto simp: f_open_read_def next_fault_def kept_def split: list.splits if_splits)

lemma kept_f_open_write: "f_open_write i s = (r, fp, s') \<Longrightarrow> kept s s'"
  by (auto simp: f_open_write_def next_fault_def kept_def split: list.splits if_splits)

lemma kept_validate: "validate s = (r, s') \<Longrightarrow> kept s s'"
  by (auto simp: validate_def next_fault_def kept_def split: list.splits if_splits)

lemma kept_f_lseek: "f_lseek n s = (r, s') \<Longrightarrow> kept s s'"
  by (auto simp: f_lseek_def next_fault_def kept_def split: list.splits if_splits)

lemma kept_f_read: "f_read n s = (r, br, s') \<Longrightarrow> kept s s'"
  by (auto simp: f_read_def next_fault_def kept_def Let_def split: list.splits if_splits)

lemma kept_f_write: "f_write fp bs s = (r, bw, fp', s') \<Longrightarrow> kept s s'"
  by (auto simp: f_write_def next_fault_def kept_def Let_def split: list.splits if_splits)

lemma kept_f_sync: "f_sync fp s = (r, s') \<Longrightarrow> kept s s'"
  by (auto simp: f_sync_def next_fault_def kept_def split: list.splits if_splits)

lemma kept_f_close_out: "f_close_out fp s = (r, fp', s') \<Longrightarrow> kept s s'"
  by (auto simp: f_close_out_def next_fault_def kept_def split: list.splits if_splits)

lemma kept_f_close: "f_close s = (r, s') \<Longrightarrow> kept s s'"
  by (auto simp: f_close_def next_fault_def kept_def split: list.splits if_splits)

lemma kept_io_buffer [simp]: "kept s (s'\<lparr>io_buffer := b\<rparr>) = kept s s'"
  by (simp add: kept_def)

lemma kept_file_index [simp]: "kept s (s'\<lparr>file_index := b\<rparr>) = kept s s'"
  by (simp add: kept_def)

lemma kept_active_file_index_loop: "active_file_index_loop i s = (j, s') \<Longrightarrow> kept s s'"
proof (induction i s arbitrary: j s' rule: active_file_index_loop.induct)
  case (1 i s)
  show ?case
  proof (cases "i < PERSISTENCE_FILENAME_CNT")
    case False
    with "1.prems" show ?thesis by simp
  next
    case True
    obtain r s1 where st: "f_stat i s = (r, s1)" by (cases "f_stat i s")
    have k1: "kept s s1" using st by (rule kept_f_stat)
    show ?thesis
    proof (cases "r = FR_OK")
      case False
      with True st "1.prems" have "active_file_index_loop (i + 1) s1 = (j, s')" by simp
      with "1.IH"[OF True st[symmetric] False] have "kept s1 s'" by simp
      with k1 show ?thesis by (rule kept_trans)
    next
      case ok: True
      show ?thesis
      proof (cases "(i + 1) mod PERSISTENCE_FILENAME_CNT > i")
        case False
        with True st ok "1.prems" have "s' = s1" by (simp add: Let_def)
        with k1 show ?thesis by simp
      next
        case nx: True
        obtain r2 s2 where st2: "f_stat ((i + 1) mod PERSISTENCE_FILENAME_CNT) s1 = (r2, s2)"
          by (cases "f_stat ((i + 1) mod PERSISTENCE_FILENAME_CNT) s1")
        with True st ok nx "1.prems" have "s' = s2" by (simp add: Let_def split: if_splits)
        with kept_f_stat[OF st2] k1 show ?thesis by (auto intro: kept_trans)
      qed
    qed
  qed
qed

lemma kept_crc_loop_aux: "crc_loop cfg c fc s = Some y \<Longrightarrow> kept s (snd (snd (snd y)))"
proof (erule crc_loop.raw_induct[where P = "\<lambda>cfg c fc s y. kept s (snd (snd (snd y)))", rotated], goal_cases)
  case (1 loop cfg c fc s y)
  note IH = 1(1) and body = 1(2)
  show ?case
  proof (cases "f_eof (nvm_file s)")
    case True
    with body show ?thesis by auto
  next
    case neof: False
    obtain r br s1 where rd: "f_read (IO_BUFFER_SIZE cfg) s = (r, br, s1)"
      by (cases "f_read (IO_BUFFER_SIZE cfg) s") auto
    have k: "kept s s1" using rd by (rule kept_f_read)
    show ?thesis
    proof (cases "r = FR_OK")
      case False
      with neof rd body have "y = (STAT_PERSISTENCE_ERROR, c, fc, s1)" by auto
      with k show ?thesis by simp
    next
      case True
      with neof rd body have "\<exists>c' fc'. loop cfg c' fc' s1 = Some y"
        by (auto split: if_splits)
      then obtain c' fc' where "loop cfg c' fc' s1 = Some y" by blast
      from k IH[OF this] show ?thesis by (rule kept_trans)
    qed
  qed
qed

lemma kept_crc_loop: "crc_loop cfg c fc s = Some (st, c', fc', s') \<Longrightarrow> kept s s'"
  by (drule kept_crc_loop_aux) simp

lemma kept_check_crc: "check_persistence_file_crc cfg s = Some (st, s') \<Longrightarrow> kept s s'"
  unfolding check_persistence_file_crc_def
  by (auto split: prod.splits if_splits option.splits dest!: kept_f_lseek kept_crc_loop intro: kept_trans)

lemma kept_active_file_index: "active_file_index s = (j, s') \<Longrightarrow> kept s s'"
  unfolding active_file_index_def by (rule kept_active_file_index_loop)

lemma kept_prepare: "prepare_persistence_file cfg s = Some (st, s') \<Longrightarrow> kept s s'"
proof -
  assume a: "prepare_persistence_file cfg s = Some (st, s')"
  obtain r0 s0 where v: "(if f_is_open (nvm_file s) then validate s else (FR_INVALID_OBJECT, s)) = (r0, s0)"
    by (cases "(if f_is_open (nvm_file s) then validate s else (FR_INVALID_OBJECT, s))") auto
  have k0: "kept s s0" using v by (auto split: if_splits dest: kept_validate)
  obtain r1 s1 where m: "(if \<not> fs_type s0 then f_mount s0 else (FR_OK, s0)) = (r1, s1)"
    by (cases "(if \<not> fs_type s0 then f_mount s0 else (FR_OK, s0))") auto
  have k1: "kept s s1" using m k0 by (auto split: if_splits dest: kept_f_mount intro: kept_trans)
  obtain index s3 where af: "active_file_index (snd (f_mkdir s1)) = (index, s3)"
    by (cases "active_file_index (snd (f_mkdir s1))") auto
  have k3: "kept s s3"
    using k1 kept_f_mkdir[of s1] kept_active_file_index[OF af] by (blast intro: kept_trans)
  obtain r2 s4 where op: "f_open_read index s3 = (r2, s4)"
    by (cases "f_open_read index s3") auto
  have k4: "kept s s4" using k3 kept_f_open_read[OF op] by (rule kept_trans)
  show ?thesis
  proof (cases "f_is_open (nvm_file s) \<and> r0 = FR_OK")
    case True
    with a v have "s' = s0" by (simp add: prepare_persistence_file_def)
    with k0 show ?thesis by simp
  next
    case slow: False
    show ?thesis
    proof (cases "r1 = FR_OK")
      case False
      with a v m slow have "s' = s1" by (simp add: prepare_persistence_file_def)
      with k1 show ?thesis by simp
    next
      case mok: True
      have ir: "index < PERSISTENCE_FILENAME_CNT"
      proof (rule ccontr)
        assume "\<not> index < PERSISTENCE_FILENAME_CNT"
        with a v m slow mok af show False by (simp add: prepare_persistence_file_def)
      qed
      show ?thesis
      proof (cases "r2 = FR_OK")
        case False
        with a v m slow mok af ir op have "s' = s4" by (simp add: prepare_persistence_file_def)
        with k4 show ?thesis by simp
      next
        case ook: True
        from a v m slow mok af ir op ook obtain st6 s6 where
          ck: "check_persistence_file_crc cfg (s4\<lparr>file_index := index\<rparr>) = Some (st6, s6)"
          and res: "s' = (if st6 \<noteq> STAT_OK then
                  (let s7 = snd (f_close s6);
                       s8 = snd (f_unlink (file_index s7) s7)
                   in s8\<lparr>file_index := 0\<rparr>)
                else snd (f_unlink (PREV_FILE_INDEX s6) s6))"
          by (auto simp add: prepare_persistence_file_def Let_def split: option.splits if_splits)
        have k6: "kept s s6" using kept_check_crc[OF ck] k4 by (auto simp: kept_def)
        have kc: "\<And>t. kept t (snd (f_close t))"
          by (metis kept_f_close prod.collapse)
        have ku: "\<And>i t. kept t (snd (f_unlink i t))"
          by (metis kept_f_unlink prod.collapse)
        show ?thesis
        proof (cases "st6 = STAT_OK")
          case True
          with res k6 ku show ?thesis by (auto intro: kept_trans)
        next
          case False
          with res have "s' = (snd (f_unlink (file_index (snd (f_close s6))) (snd (f_close s6))))\<lparr>file_index := 0\<rparr>"
            by (simp add: Let_def)
          moreover have "kept s (snd (f_unlink (file_index (snd (f_close s6))) (snd (f_close s6))))"
            using k6 kc[of s6] ku[of "snd (f_close s6)"] by (blast intro: kept_trans)
          ultimately show ?thesis by simp
        qed
      qed
    qed
  qed
qed

lemma kept_window_body:
  "window_body cfg step cnt temp crc f_out s = Some (Inl (st, s')) \<Longrightarrow> kept s s'"
  "window_body cfg step cnt temp crc f_out s = Some (Inr (cnt', temp', crc', f_out', s'')) \<Longrightarrow> kept s s''"
proof -
  obtain r bw s1 where rd: "f_read (io_byte_count cfg s) s = (r, bw, s1)"
    by (cases "f_read (io_byte_count cfg s) s") auto
  have k1: "kept s s1" using rd by (rule kept_f_read)
  have w: "\<And>bs b r' bw' f1 s4. f_write f_out bs (s1\<lparr>io_buffer := b\<rparr>) = (r', bw', f1, s4) \<Longrightarrow> kept s s4"
  proof -
    fix bs b r' bw' f1 s4
    assume "f_write f_out bs (s1\<lparr>io_buffer := b\<rparr>) = (r', bw', f1, s4)"
    from kept_f_write[OF this] k1 show "kept s s4" by (simp add: kept_def)
  qed
  have sy: "\<And>bs b r' bw' f1 s4 r'' s5. f_write f_out bs (s1\<lparr>io_buffer := b\<rparr>) = (r', bw', f1, s4) \<Longrightarrow>
     f_sync f1 s4 = (r'', s5) \<Longrightarrow> kept s s5"
    using w kept_f_sync kept_trans by blast
  show "window_body cfg step cnt temp crc f_out s = Some (Inl (st, s')) \<Longrightarrow> kept s s'"
    unfolding window_body_def Let_def using rd
    by (auto split: option.splits prod.splits if_splits dest: w sy)
  show "window_body cfg step cnt temp crc f_out s = Some (Inr (cnt', temp', crc', f_out', s'')) \<Longrightarrow> kept s s''"
    unfolding window_body_def Let_def using rd
    by (auto split: option.splits prod.splits if_splits dest: w sy)
qed

lemma kept_window_loop_aux:
  "window_loop cfg step cnt temp crc f_out s = Some y \<Longrightarrow>
     kept s (case y of Inl (st, s') \<Rightarrow> s' | Inr (c, f, s') \<Rightarrow> s')"
proof (erule window_loop.raw_induct[where P = "\<lambda>cfg step cnt temp crc f_out s y.
         kept s (case y of Inl (st, s') \<Rightarrow> s' | Inr (c, f, s') \<Rightarrow> s')", rotated], goal_cases)
  case (1 loop cfg step cnt temp crc f_out s y)
  note IH = 1(1) and body = 1(2)
  show ?case
  proof (cases "temp \<noteq> [] \<or> f_remain (nvm_file s) > word_of_nat CRC_LEN")
    case False
    with body show ?thesis by auto
  next
    case True
    show ?thesis
    proof (cases "window_body cfg step cnt temp crc f_out s")
      case None
      with True body show ?thesis by simp
    next
      case (Some b)
      show ?thesis
      proof (cases b)
        case (Inl e)
        obtain st s' where e: "e = (st, s')" by (cases e)
        with Some Inl True body have "y = Inl (st, s')" by simp
        with kept_window_body(1)[of cfg step cnt temp crc f_out s st s'] Some Inl e
        show ?thesis by simp
      next
        case (Inr n)
        obtain cnt' temp' crc' f_out' s'' where n: "n = (cnt', temp', crc', f_out', s'')"
          by (cases n)
        with Some Inr True body have "loop cfg step cnt' temp' crc' f_out' s'' = Some y" by simp
        from IH[OF this] kept_window_body(2)[of cfg step cnt temp crc f_out s cnt' temp' crc' f_out' s''] Some Inr n
        show ?thesis by (auto intro: kept_trans)
      qed
    qed
  qed
qed

lemma kept_window_loop:
  "window_loop cfg step cnt temp crc f_out s = Some (Inl (st, s')) \<Longrightarrow> kept s s'"
  "window_loop cfg step cnt temp crc f_out s = Some (Inr (c, f, s'')) \<Longrightarrow> kept s s''"
  by (drule kept_window_loop_aux, simp)+

lemma kept_read_persistent_value:
  "read_persistent_value cfg nv s = Some (st, nv', s') \<Longrightarrow> kept s s'"
  unfolding read_persistent_value_def
  by (auto split: option.splits prod.splits if_splits
           dest!: kept_prepare kept_f_lseek kept_f_read intro: kept_trans)


lemma kept_write_persistent_values:
  assumes "cycle_state s = CYCLE_OFF" and "write_persistent_values cfg s = Some (st, s')"
  shows "kept s s'"
proof -
  from assms obtain st1 s1 where p: "prepare_persistence_file cfg s = Some (st1, s1)"
    by (auto simp: write_persistent_values_def split: option.splits)
  have k1: "kept s s1" using p by (rule kept_prepare)
  obtain r s2 where l: "(if st1 = STAT_OK then f_lseek 0 s1 else (FR_OK, s1)) = (r, s2)"
    by (cases "(if st1 = STAT_OK then f_lseek 0 s1 else (FR_OK, s1))") auto
  have k2: "kept s s2" using l k1 by (auto split: if_splits dest: kept_f_lseek intro: kept_trans)
  obtain r1 f_out s3 where ow: "f_open_write (NEXT_FILE_INDEX s2) s2 = (r1, f_out, s3)"
    by (cases "f_open_write (NEXT_FILE_INDEX s2) s2") auto
  have k3: "kept s s3" using k2 kept_f_open_write[OF ow] by (rule kept_trans)
  obtain r2 s4 where sy: "f_sync f_out s3 = (r2, s4)" by (cases "f_sync f_out s3") auto
  have k4: "kept s s4" using k3 kept_f_sync[OF sy] by (rule kept_trans)
  note unf = write_persistent_values_def p l ow sy
  show ?thesis
  proof (cases "r = FR_OK \<and> r1 = FR_OK \<and> r2 = FR_OK")
    case False
    with assms have "s' = s2 \<or> s' = s3 \<or> s' = s4" by (auto simp: unf split: if_splits)
    with k2 k3 k4 show ?thesis by auto
  next
    case ok: True
    let ?wl = "window_loop cfg (word_of_nat (IO_BUFFER_SIZE cfg div NVM_VALUE_LEN)) 0 (write_cache s4) 0 f_out s4"
    from assms ok obtain y where wl: "?wl = Some y"
      by (auto simp: unf split: option.splits)
    show ?thesis
    proof (cases y)
      case (Inl e)
      with assms ok wl have "e = (st, s')" by (simp add: unf)
      with kept_window_loop(1)[of cfg _ 0 "write_cache s4" 0 f_out s4 st s'] wl Inl k4
      show ?thesis by (auto intro: kept_trans)
    next
      case (Inr t)
      obtain crc f_out1 s5 where t: "t = (crc, f_out1, s5)" by (cases t)
      have k5: "kept s s5"
        using kept_window_loop(2)[of cfg _ 0 "write_cache s4" 0 f_out s4 crc f_out1 s5] wl Inr t k4
        by (auto intro: kept_trans)
      obtain r3 bw f_out2 s6 where w: "f_write f_out1 (word_bytes crc) s5 = (r3, bw, f_out2, s6)"
        by (cases "f_write f_out1 (word_bytes crc) s5") auto
      have k6: "kept s s6" using k5 kept_f_write[OF w] by (rule kept_trans)
      obtain r4 f_out3 s7 where c: "f_close_out f_out2 s6 = (r4, f_out3, s7)"
        by (cases "f_close_out f_out2 s6") auto
      have k7: "kept s s7" using k6 kept_f_close_out[OF c] by (rule kept_trans)
      obtain r5 s8 where c2: "f_close s7 = (r5, s8)" by (cases "f_close s7") auto
      have k8: "kept s s8" using k7 kept_f_close[OF c2] by (rule kept_trans)
      obtain r6 s9 where u: "f_unlink (file_index s8) s8 = (r6, s9)"
        by (cases "f_unlink (file_index s8) s8") auto
      have k9: "kept s s9" using k8 kept_f_unlink[OF u] by (rule kept_trans)
      from assms ok wl Inr t w c c2 u
      have "s' = s6 \<or> s' = s7 \<or> s' = s8 \<or> s' = s9 \<or> s' = s9\<lparr>file_index := 0\<rparr>"
        by (auto simp: unf split: if_splits)
      with k6 k7 k8 k9 show ?thesis by auto
    qed
  qed
qed

lemma write_persistent_values_busy:
  "cycle_state s \<noteq> CYCLE_OFF \<Longrightarrow>
     write_persistent_values cfg s = Some (STAT_FILE_NOT_OPEN, s\<lparr>exceptions := exceptions s @ [STAT_FILE_NOT_OPEN]\<rparr>)"
  by (simp add: write_persistent_values_def rpt_exception_def)

lemma write_persistent_values_frame:
  assumes "write_persistent_values cfg s = Some (st, s')"
  shows "write_cache s' = write_cache s \<and> write_failures s' = write_failures s"
proof (cases "cycle_state s = CYCLE_OFF")
  case True
  from kept_write_persistent_values[OF True assms] show ?thesis by (simp add: kept_def)
next
  case False
  from write_persistent_values_busy[OF False, of cfg] assms show ?thesis by auto
qed

section \<open>Unfolding the model on a given state\<close>

lemmas fs_defs = next_fault_def is_fail_def file_data_def file_exists_def f_is_open_def f_eof_def
  f_remain_def f_polldisk_def f_mount_def f_mkdir_def f_stat_def f_unlink_def f_open_read_def
  f_open_write_def validate_def f_lseek_def f_read_def f_write_def f_sync_def f_close_out_def
  f_close_def rpt_exception_def store_bytes_def memset0_def read_bytes_def
  NVM_VALUE_LEN_def CRC_LEN_def PERSISTENCE_FILENAME_CNT_def NEXT_FILE_INDEX_def PREV_FILE_INDEX_def

lemmas pf_defs = write_persistent_value_def read_persistent_value_def prepare_persistence_file_def
  active_file_index_def check_persistence_file_crc_def write_persistent_values_def
  window_body_def io_byte_count_def window_entries_def lower_bound_def
  write_persistent_values_callback_def Let_def

lemmas run_defs = init_state_def cfg200_def

section \<open>Helper lemmas\<close>

lemma crc32_zlib_Nil [simp]: "crc32_zlib c [] = c"
  by (simp add: crc32_zlib_def)

lemma map_insert_present:
  "cache_ok xs \<Longrightarrow> k \<in> fst ` set xs \<Longrightarrow> map_insert (k, v) xs = xs"
proof (induction xs)
  case Nil
  then show ?case by simp
next
  case (Cons q qs)
  from Cons.prems(1) have gt: "\<forall>p\<in>set qs. fst q < fst p" and ok: "cache_ok qs"
    by (auto simp: cache_ok_def)
  show ?case
  proof (cases "k = fst q")
    case True
    then show ?thesis by simp
  next
    case False
    with Cons.prems(2) have in_qs: "k \<in> fst ` set qs" by auto
    with gt have "fst q < k" by auto
    then have "\<not> k < fst q" by simp
    with False Cons.IH[OF ok in_qs] show ?thesis by simp
  qed
qed

lemma callback_after_flush:
  assumes "write_cache s \<noteq> []" and "\<not> t0 - last_write_systick s < MIN_WRITE_INTERVAL cfg"
    and "write_persistent_values cfg s = Some (st, s1)"
  shows "write_persistent_values_callback cfg t0 t1 s =
           Some (STAT_OK,
             (if st = STAT_OK then s1\<lparr>write_cache := [], write_failures := 0\<rparr>
              else if write_failures s + 1 \<ge> MAX_WRITE_FAILURES cfg
                   then (snd (f_unlink (NEXT_FILE_INDEX s1) s1))\<lparr>write_failures := 0, write_cache := []\<rparr>
                   else (snd (f_unlink (NEXT_FILE_INDEX s1) s1))\<lparr>write_failures := write_failures s + 1\<rparr>)
             \<lparr>last_write_systick := t1\<rparr>)"
proof -
  have f: "write_failures s1 = write_failures s"
    using write_persistent_values_frame[OF assms(3)] by simp
  have u: "write_failures (snd (f_unlink (NEXT_FILE_INDEX s1) s1)) = write_failures s"
    using kept_f_unlink[of "NEXT_FILE_INDEX s1" s1] f
    by (cases "f_unlink (NEXT_FILE_INDEX s1) s1") (auto simp: kept_def)
  show ?thesis
    using assms u by (simp add: write_persistent_values_callback_def f_polldisk_def Let_def)
qed

lemma cache_after_unlink: "write_cache (snd (f_unlink i s)) = write_cache s"
  using kept_f_unlink[of i s] by (cases "f_unlink i s") (auto simp: kept_def)

lemma disk_error_flush:
  "\<exists>s1. write_persistent_values cfg200 disk_error_state = Some (STAT_PERSISTENCE_ERROR, s1)"
  by (simp add: disk_error_state_def pending_state_def pf_defs run_defs fs_defs)

subsection \<open>The accessors return\<close>

lemma f_read_open:
  assumes "fil_open (nvm_file s)" and "f_read n s = (r, br, s1)"
  shows "nvm_file s1 = (nvm_file s)\<lparr>fptr := fptr (nvm_file s) + br\<rparr>"
    and "r = FR_OK \<Longrightarrow> br = min n (fsize (nvm_file s) - fptr (nvm_file s))"
    and "disk s1 = disk s"
  using assms
  by (auto simp: f_read_def next_fault_def is_fail_def Let_def split: list.splits fault.splits)

lemma crc_loop_returns:
  assumes "CRC_LEN \<le> IO_BUFFER_SIZE cfg" and "tail_ok cfg (fsize (nvm_file s))"
    and "fptr (nvm_file s) mod IO_BUFFER_SIZE cfg = 0" and "fptr (nvm_file s) \<le> fsize (nvm_file s)"
    and "fil_open (nvm_file s)"
  shows "\<exists>y. crc_loop cfg c fc s = Some y"
  using assms(2-5)
proof (induction "fsize (nvm_file s) - fptr (nvm_file s)" arbitrary: s c fc rule: less_induct)
  case less
  let ?io = "IO_BUFFER_SIZE cfg"
  let ?fp = "nvm_file s"
  have io: "4 \<le> ?io" using assms(1) by (simp add: CRC_LEN_def)
  show ?case
  proof (cases "f_eof ?fp")
    case True
    then show ?thesis by (subst crc_loop.simps) simp
  next
    case neof: False
    then have lt: "fptr ?fp < fsize ?fp" using less.prems(3) by (simp add: f_eof_def)
    obtain r br s1 where rd: "f_read ?io s = (r, br, s1)" by (cases "f_read ?io s") auto
    note fr = f_read_open[OF less.prems(4) rd]
    show ?thesis
    proof (cases "r = FR_OK")
      case False
      with neof rd show ?thesis by (subst crc_loop.simps) simp
    next
      case ok: True
      from fr(2)[OF ok] have br: "br = min ?io (fsize ?fp - fptr ?fp)" .
      show ?thesis
      proof (cases "f_eof (nvm_file s1)")
        case eof1: True
        then have e: "fptr ?fp + br = fsize ?fp" using fr(1) by (simp add: f_eof_def)
        with br lt have le: "fsize ?fp - fptr ?fp \<le> ?io" by simp
        have "fsize ?fp mod ?io = br mod ?io"
          using e less.prems(2) by (metis mod_add_left_eq add_cancel_left_left mod_mod_trivial)
        with less.prems(1) have "br mod ?io = 0 \<or> 4 \<le> br mod ?io"
          by (simp add: tail_ok_def CRC_LEN_def)
        moreover have "0 < br" using e lt by simp
        moreover have "br \<le> ?io" using br by simp
        ultimately have br4: "4 \<le> br" using io
          by (metis mod_less le_neq_implies_less less_numeral_extra(3))
        have "\<exists>y. crc_loop cfg c' fc' s1 = Some y" for c' fc'
          using eof1 by (subst crc_loop.simps) simp
        with neof rd ok eof1 br4 show ?thesis
          by (subst crc_loop.simps) (simp add: CRC_LEN_def)
      next
        case neof1: False
        then have ne: "fptr ?fp + br \<noteq> fsize ?fp" using fr(1) by (simp add: f_eof_def)
        with br lt have brio: "br = ?io" by (simp add: min_def split: if_splits)
        have m: "fsize (nvm_file s1) - fptr (nvm_file s1) < fsize ?fp - fptr ?fp"
          using fr(1) brio io lt by simp
        have "\<exists>y. crc_loop cfg c' fc' s1 = Some y" for c' fc'
        proof (rule less.hyps[OF m])
          show "tail_ok cfg (fsize (nvm_file s1))" using less.prems(1) fr(1) by simp
          show "fptr (nvm_file s1) mod ?io = 0" using less.prems(2) fr(1) brio by simp
          show "fptr (nvm_file s1) \<le> fsize (nvm_file s1)" using fr(1) br lt by simp
          show "fil_open (nvm_file s1)" using fr(1) less.prems(4) by simp
        qed
        with neof rd ok neof1 show ?thesis
          by (subst crc_loop.simps) simp
      qed
    qed
  qed
qed


lemma disk_validate: "disk (snd (validate s)) = disk s"
  by (simp add: validate_def next_fault_def split: list.splits)

lemma disk_f_mount: "disk (snd (f_mount s)) = disk s"
  by (simp add: f_mount_def next_fault_def split: list.splits)

lemma disk_f_mkdir: "disk (snd (f_mkdir s)) = disk s"
  by (simp add: f_mkdir_def next_fault_def split: list.splits)

lemma disk_f_stat: "disk (snd (f_stat i s)) = disk s"
  by (simp add: f_stat_def next_fault_def split: list.splits)

lemma disk_active_file_index_loop: "disk (snd (active_file_index_loop i s)) = disk s"
proof (induction i s rule: active_file_index_loop.induct)
  case (1 i s)
  show ?case
  proof (cases "i < PERSISTENCE_FILENAME_CNT")
    case False
    then show ?thesis by simp
  next
    case True
    obtain r s1 where st: "f_stat i s = (r, s1)" by (cases "f_stat i s")
    have d1: "disk s1 = disk s" using disk_f_stat[of i s] st by simp
    show ?thesis
    proof (cases "r = FR_OK")
      case False
      with "1.IH"[OF True st[symmetric] False] True st d1 show ?thesis by simp
    next
      case True
      obtain r2 s2 where st2: "f_stat ((i + 1) mod PERSISTENCE_FILENAME_CNT) s1 = (r2, s2)"
        by (cases "f_stat ((i + 1) mod PERSISTENCE_FILENAME_CNT) s1")
      have d2: "disk s2 = disk s"
        using disk_f_stat[of "(i + 1) mod PERSISTENCE_FILENAME_CNT" s1] st2 d1 by simp
      from True \<open>i < PERSISTENCE_FILENAME_CNT\<close> st st2 d1 d2
      show ?thesis by (simp add: Let_def)
    qed
  qed
qed

lemma f_open_read_ok:
  assumes "f_open_read i s = (FR_OK, s')"
  shows "nvm_file s' = \<lparr>fil_open = True, fil_slot = i, fptr = 0, fsize = length (file_data s i)\<rparr>"
    and "disk s' = disk s"
  using assms
  by (auto simp: f_open_read_def next_fault_def file_exists_def split: list.splits if_splits)

lemma f_lseek_ok:
  assumes "f_lseek ofs s = (FR_OK, s')"
  shows "nvm_file s' = (nvm_file s)\<lparr>fptr := min ofs (fsize (nvm_file s))\<rparr>"
    and "fil_open (nvm_file s)" and "disk s' = disk s"
  using assms
  by (auto simp: f_lseek_def next_fault_def split: list.splits if_splits)

lemma files_ok_tail:
  "files_ok cfg s \<Longrightarrow> i < PERSISTENCE_FILENAME_CNT \<Longrightarrow> tail_ok cfg (length (file_data s i))"
proof -
  assume a: "files_ok cfg s" and "i < PERSISTENCE_FILENAME_CNT"
  then have "i = 0 \<or> i = 1 \<or> i = 2" by (auto simp: PERSISTENCE_FILENAME_CNT_def)
  with a show ?thesis by (auto simp: files_ok_def)
qed

lemma file_data_disk: "disk s' = disk s \<Longrightarrow> file_data s' i = file_data s i"
  by (simp add: file_data_def)

lemma check_crc_returns:
  assumes "CRC_LEN \<le> IO_BUFFER_SIZE cfg" and "tail_ok cfg (fsize (nvm_file s))"
  shows "\<exists>y. check_persistence_file_crc cfg s = Some y"
proof -
  obtain r s1 where l: "f_lseek 0 s = (r, s1)" by (cases "f_lseek 0 s")
  show ?thesis
  proof (cases "r = FR_OK")
    case False
    with l show ?thesis by (simp add: check_persistence_file_crc_def)
  next
    case True
    with l have l': "f_lseek 0 s = (FR_OK, s1)" by simp
    note f = f_lseek_ok[OF l']
    have "\<exists>y. crc_loop cfg 0 (nan_as_uint32 cfg) s1 = Some y"
      using assms f by (intro crc_loop_returns) simp_all
    then obtain y where "crc_loop cfg 0 (nan_as_uint32 cfg) s1 = Some y" by blast
    with l' show ?thesis
      by (simp add: check_persistence_file_crc_def split: prod.splits)
  qed
qed

lemma files_ok_disk: "disk s' = disk s \<Longrightarrow> files_ok cfg s' = files_ok cfg s"
  by (simp add: files_ok_def file_data_def)

subsection \<open>The checksum scan on a card without faults\<close>

lemma length_word_bytes [simp]: "length (word_bytes w) = 4"
  by (simp add: word_bytes_def)

lemma bytes_word_word_bytes [simp]: "bytes_word (word_bytes w) = w"
  unfolding bytes_word_def word_bytes_def
  apply (rule bit_word_eqI)
  apply (auto simp add: bit_simps)
  subgoal for n by (cases "n < 24") (simp_all add: not_less)
  done

lemma tail_chunk:
  assumes "CRC_LEN \<le> IO_BUFFER_SIZE cfg" and "tail_ok cfg n"
    and "p mod IO_BUFFER_SIZE cfg = 0" and "p < n"
  shows "CRC_LEN \<le> n - p"
proof -
  let ?io = "IO_BUFFER_SIZE cfg"
  from assms(3) have "?io dvd p" by auto
  then obtain k where k: "p = k * ?io" by (auto simp: dvd_def mult.commute)
  have "n = (n - p) + k * ?io" using assms(4) k by simp
  then have "n mod ?io = ((n - p) + k * ?io) mod ?io" by simp
  also have "\<dots> = (n - p) mod ?io" by simp
  finally have m: "n mod ?io = (n - p) mod ?io" .
  have pos: "0 < n - p" using assms(4) by simp
  from assms(2) m have "(n - p) mod ?io = 0 \<or> CRC_LEN \<le> (n - p) mod ?io"
    by (simp add: tail_ok_def)
  then show ?thesis
  proof
    assume "(n - p) mod ?io = 0"
    then have "?io dvd n - p" by auto
    with pos have "?io \<le> n - p" by (simp add: dvd_imp_le)
    with assms(1) show ?thesis by simp
  next
    assume "CRC_LEN \<le> (n - p) mod ?io"
    moreover have "(n - p) mod ?io \<le> n - p" by (rule mod_less_eq_dividend)
    ultimately show ?thesis by (rule le_trans)
  qed
qed

lemma f_read_pass:
  assumes "faults s = []" and "fil_open (nvm_file s)"
  shows "f_read n s =
           (FR_OK, min n (fsize (nvm_file s) - fptr (nvm_file s)),
            s\<lparr>nvm_file := (nvm_file s)\<lparr>fptr := fptr (nvm_file s) + min n (fsize (nvm_file s) - fptr (nvm_file s))\<rparr>,
              io_buffer := store_bytes 0
                 (read_bytes (file_data s (fil_slot (nvm_file s))) (fptr (nvm_file s))
                    (min n (fsize (nvm_file s) - fptr (nvm_file s))))
                 (io_buffer s)\<rparr>)"
  using assms by (simp add: f_read_def next_fault_def is_fail_def Let_def)

lemma take_pad: "n \<le> length xs \<Longrightarrow> take n (xs @ ys) = take n xs"
  by simp

lemma take_store_bytes0: "take (length bs) (store_bytes 0 bs buf) = bs"
  by (simp add: store_bytes_def)

lemma take_le_store_bytes0: "n \<le> length bs \<Longrightarrow> take n (store_bytes 0 bs buf) = take n bs"
  by (simp add: store_bytes_def)

lemma drop_take_store_bytes0:
  "n + m \<le> length bs \<Longrightarrow> take m (drop n (store_bytes 0 bs buf)) = take m (drop n bs)"
  by (simp add: store_bytes_def)

lemma split_content:
  "p \<le> length content \<Longrightarrow> take (length content - p) (drop p (content @ trailer)) = drop p content"
  by simp

lemma split_trailer:
  "p \<le> length content \<Longrightarrow> drop (length content - p) (drop p (content @ trailer)) = trailer"
  by simp

lemma crc_loop_run:
  assumes cs: "crc_streams cfg" and io: "CRC_LEN \<le> IO_BUFFER_SIZE cfg"
    and d: "file_data s (fil_slot (nvm_file s)) = content @ trailer" and tl: "length trailer = CRC_LEN"
    and tk: "tail_ok cfg (length (content @ trailer))"
    and fz: "fsize (nvm_file s) = length (content @ trailer)"
    and f0: "faults s = []" and op: "fil_open (nvm_file s)"
    and pm: "fptr (nvm_file s) mod IO_BUFFER_SIZE cfg = 0"
    and pl: "fptr (nvm_file s) < fsize (nvm_file s)"
  shows "\<exists>b. crc_loop cfg c fc s =
           Some (STAT_OK, crc32 cfg c (drop (fptr (nvm_file s)) content), bytes_word trailer,
                 s\<lparr>nvm_file := (nvm_file s)\<lparr>fptr := fsize (nvm_file s)\<rparr>, io_buffer := b\<rparr>)"
  using d fz f0 op pm pl
proof (induction "fsize (nvm_file s) - fptr (nvm_file s)" arbitrary: s c rule: less_induct)
  case less
  define io where "io = IO_BUFFER_SIZE cfg"
  define p where "p = fptr (nvm_file s)"
  define n where "n = length content + CRC_LEN"
  define br where "br = min io (n - p)"
  define X where "X = drop p (content @ trailer)"
  define bytes where "bytes = read_bytes (content @ trailer) p br"
  define s1 where "s1 = s\<lparr>nvm_file := (nvm_file s)\<lparr>fptr := p + br\<rparr>,
                          io_buffer := store_bytes 0 bytes (io_buffer s)\<rparr>"
  have fsz: "fsize (nvm_file s) = n" using less.prems(2) tl by (simp add: n_def)
  have pn: "p < n" using less.prems(6) fsz by (simp add: p_def)
  have io4: "CRC_LEN \<le> io" using io by (simp add: io_def)
  have tkn: "tail_ok cfg n" using tk tl by (simp add: n_def)
  have rd: "f_read (IO_BUFFER_SIZE cfg) s = (FR_OK, br, s1)"
    using f_read_pass[OF less.prems(3,4), of "IO_BUFFER_SIZE cfg"] less.prems(1) fsz
    by (simp add: s1_def bytes_def X_def br_def p_def io_def)
  have neof: "\<not> f_eof (nvm_file s)" using less.prems(6) by (simp add: f_eof_def)
  have rem4: "CRC_LEN \<le> n - p"
    using tail_chunk[OF io tkn, of p] less.prems(5) pn by (simp add: p_def)
  have lX: "length X = n - p" using tl by (simp add: X_def n_def)
  have brle: "br \<le> length X" using lX by (simp add: br_def)
  have bytes: "bytes = take br X" unfolding bytes_def read_bytes_def X_def[symmetric] by (rule take_pad[OF brle])
  have lb: "length bytes = br" using brle by (simp add: bytes)
  have buf: "io_buffer s1 = store_bytes 0 bytes (io_buffer s)" by (simp add: s1_def)
  have fp1: "nvm_file s1 = (nvm_file s)\<lparr>fptr := p + br\<rparr>" by (simp add: s1_def)
  show ?case
  proof (cases "p + br = n")
    case True
    then have br: "br = n - p" using pn by simp
    have eof1: "f_eof (nvm_file s1)" using True fsz by (simp add: f_eof_def fp1)
    have br4: "\<not> br < CRC_LEN" using rem4 br by simp
    have pc: "p \<le> length content" using rem4 by (simp add: n_def CRC_LEN_def)
    have brc: "br - CRC_LEN = length content - p" using br pc by (simp add: n_def)
    have b1: "take (br - CRC_LEN) (io_buffer s1) = drop p content"
    proof -
      have "take (br - CRC_LEN) (io_buffer s1) = take (br - CRC_LEN) bytes"
        unfolding buf using lb by (simp add: take_le_store_bytes0)
      also have "\<dots> = take (br - CRC_LEN) X" by (simp add: bytes min_def)
      also have "\<dots> = drop p content"
        unfolding brc X_def using pc by (rule split_content)
      finally show ?thesis .
    qed
    have b2: "take CRC_LEN (drop (br - CRC_LEN) (io_buffer s1)) = trailer"
    proof -
      have "take CRC_LEN (drop (br - CRC_LEN) (io_buffer s1)) = take CRC_LEN (drop (br - CRC_LEN) bytes)"
        unfolding buf using lb br4 by (intro drop_take_store_bytes0) simp
      also have "\<dots> = take CRC_LEN (drop (br - CRC_LEN) X)"
        using br4 by (simp add: bytes drop_take)
      also have "drop (br - CRC_LEN) X = trailer"
        unfolding brc X_def using pc by (rule split_trailer)
      also have "take CRC_LEN trailer = trailer" using tl by simp
      finally show ?thesis .
    qed
    have fin: "crc_loop cfg c' fc' s1 = Some (STAT_OK, c', fc', s1)" for c' fc'
      using eof1 by (subst crc_loop.simps) simp
    have "crc_loop cfg c fc s = Some (STAT_OK, crc32 cfg c (drop p content), bytes_word trailer, s1)"
      using neof rd eof1 br4 b1 b2 fin by (subst crc_loop.simps) simp
    moreover have "s1 = s\<lparr>nvm_file := (nvm_file s)\<lparr>fptr := fsize (nvm_file s)\<rparr>,
                          io_buffer := store_bytes 0 bytes (io_buffer s)\<rparr>"
      using True fsz by (simp add: s1_def)
    ultimately show ?thesis unfolding p_def by metis
  next
    case False
    then have brio: "br = io" using pn by (simp add: br_def min_def split: if_splits)
    have lt1: "p + io < n" using False brio pn by (simp add: br_def min_def split: if_splits)
    have neof1: "\<not> f_eof (nvm_file s1)" using False fsz by (simp add: f_eof_def fp1)
    have io0: "0 < io" using io4 by (simp add: CRC_LEN_def)
    have m: "fsize (nvm_file s1) - fptr (nvm_file s1) < fsize (nvm_file s) - fptr (nvm_file s)"
      using brio io0 pn fsz by (simp add: fp1 p_def[symmetric])
    have pm1: "(p + io) mod IO_BUFFER_SIZE cfg = 0" using less.prems(5) by (simp add: p_def io_def)
    have rem1: "CRC_LEN \<le> n - (p + io)"
      using tail_chunk[OF io tkn pm1] lt1 by simp
    then have pc: "p + io \<le> length content" using lt1 by (simp add: n_def CRC_LEN_def)
    have b1: "take br (io_buffer s1) = take io (drop p content)"
    proof -
      have "take br (io_buffer s1) = bytes"
        unfolding buf using take_store_bytes0[of bytes "io_buffer s"] lb by simp
      also have "\<dots> = take io (drop p content)" unfolding bytes X_def brio using pc by simp
      finally show ?thesis .
    qed
    have "\<exists>b. crc_loop cfg (crc32 cfg c (take io (drop p content))) fc s1 =
           Some (STAT_OK, crc32 cfg (crc32 cfg c (take io (drop p content))) (drop (fptr (nvm_file s1)) content),
                 bytes_word trailer,
                 s1\<lparr>nvm_file := (nvm_file s1)\<lparr>fptr := fsize (nvm_file s1)\<rparr>, io_buffer := b\<rparr>)"
    proof (rule less.hyps[OF m])
      show "file_data s1 (fil_slot (nvm_file s1)) = content @ trailer"
        using less.prems(1) by (simp add: file_data_def s1_def)
      show "fsize (nvm_file s1) = length (content @ trailer)" using less.prems(2) by (simp add: fp1)
      show "faults s1 = []" using less.prems(3) by (simp add: s1_def)
      show "fil_open (nvm_file s1)" using less.prems(4) by (simp add: fp1)
      show "fptr (nvm_file s1) mod IO_BUFFER_SIZE cfg = 0" using pm1 brio by (simp add: fp1)
      show "fptr (nvm_file s1) < fsize (nvm_file s1)" using lt1 brio fsz by (simp add: fp1)
    qed
    then obtain b where rec: "crc_loop cfg (crc32 cfg c (take io (drop p content))) fc s1 =
           Some (STAT_OK, crc32 cfg (crc32 cfg c (take io (drop p content))) (drop (p + io) content),
                 bytes_word trailer,
                 s\<lparr>nvm_file := (nvm_file s)\<lparr>fptr := fsize (nvm_file s)\<rparr>, io_buffer := b\<rparr>)"
      by (auto simp: s1_def brio)
    have "drop (p + io) content = drop io (drop p content)" by (simp add: add.commute)
    then have "crc32 cfg (crc32 cfg c (take io (drop p content))) (drop (p + io) content)
            = crc32 cfg c (take io (drop p content) @ drop io (drop p content))"
      using cs by (simp add: crc_streams_def)
    also have "\<dots> = crc32 cfg c (drop p content)" by (simp only: append_take_drop_id)
    finally have st: "crc32 cfg (crc32 cfg c (take io (drop p content))) (drop (p + io) content)
            = crc32 cfg c (drop p content)" .
    have "crc_loop cfg c fc s = Some (STAT_OK, crc32 cfg c (drop p content), bytes_word trailer,
                 s\<lparr>nvm_file := (nvm_file s)\<lparr>fptr := fsize (nvm_file s)\<rparr>, io_buffer := b\<rparr>)"
      using neof rd neof1 b1 rec st
      by (subst crc_loop.simps) simp
    then show ?thesis unfolding p_def by metis
  qed
qed

lemma f_stat_pass:
  "faults s = [] \<Longrightarrow> f_stat i s = (if file_exists s i then FR_OK else FR_NO_FILE, s)"
  by (simp add: f_stat_def next_fault_def is_fail_def)

lemma afi_pass:
  "faults s = [] \<Longrightarrow> snd (active_file_index_loop j s) = s"
proof (induction j s rule: active_file_index_loop.induct)
  case (1 i s)
  show ?case
  proof (cases "i < PERSISTENCE_FILENAME_CNT")
    case False
    then show ?thesis by simp
  next
    case True
    show ?thesis
    proof (cases "file_exists s i")
      case False
      then have st: "f_stat i s = (FR_NO_FILE, s)" using "1.prems" by (simp add: f_stat_pass)
      from "1.IH"[OF True st[symmetric]] "1.prems"
      have "snd (active_file_index_loop (i + 1) s) = s" by simp
      then show ?thesis using True st by (subst active_file_index_loop.simps) simp
    next
      case ex: True
      then have st: "f_stat i s = (FR_OK, s)" using "1.prems" by (simp add: f_stat_pass)
      show ?thesis using True st "1.prems"
        by (subst active_file_index_loop.simps) (simp add: f_stat_pass Let_def)
    qed
  qed
qed

lemma afi_disk:
  "faults s = [] \<Longrightarrow> faults t = [] \<Longrightarrow> disk t = disk s \<Longrightarrow>
     fst (active_file_index_loop j t) = fst (active_file_index_loop j s)"
proof (induction j s rule: active_file_index_loop.induct)
  case (1 i s)
  have fe: "file_exists t k = file_exists s k" for k
    using "1.prems"(3) by (simp add: file_exists_def)
  show ?case
  proof (cases "i < PERSISTENCE_FILENAME_CNT")
    case False
    then show ?thesis by simp
  next
    case True
    show ?thesis
    proof (cases "file_exists s i")
      case False
      then have st: "f_stat i s = (FR_NO_FILE, s)" using "1.prems" by (simp add: f_stat_pass)
      from False fe have stt: "f_stat i t = (FR_NO_FILE, t)" using "1.prems" by (simp add: f_stat_pass)
      from "1.IH"[OF True st[symmetric]] "1.prems"
      have "fst (active_file_index_loop (i + 1) t) = fst (active_file_index_loop (i + 1) s)" by simp
      moreover have "active_file_index_loop i t = active_file_index_loop (i + 1) t"
        using True stt by (subst active_file_index_loop.simps) simp
      moreover have "active_file_index_loop i s = active_file_index_loop (i + 1) s"
        using True st by (subst active_file_index_loop.simps) simp
      ultimately show ?thesis by simp
    next
      case ex: True
      then have st: "f_stat i s = (FR_OK, s)" using "1.prems" by (simp add: f_stat_pass)
      from ex fe have stt: "f_stat i t = (FR_OK, t)" using "1.prems" by (simp add: f_stat_pass)
      have a: "active_file_index_loop i s =
          (if (i + 1) mod PERSISTENCE_FILENAME_CNT > i \<and> file_exists s ((i + 1) mod PERSISTENCE_FILENAME_CNT)
           then (i + 1) mod PERSISTENCE_FILENAME_CNT else i, s)"
        using True st "1.prems" by (subst active_file_index_loop.simps) (simp add: f_stat_pass Let_def)
      have b: "active_file_index_loop i t =
          (if (i + 1) mod PERSISTENCE_FILENAME_CNT > i \<and> file_exists t ((i + 1) mod PERSISTENCE_FILENAME_CNT)
           then (i + 1) mod PERSISTENCE_FILENAME_CNT else i, t)"
        using True stt "1.prems" by (subst active_file_index_loop.simps) (simp add: f_stat_pass Let_def)
      show ?thesis unfolding a b using fe by simp
    qed
  qed
qed

lemma active_file_index_pass:
  assumes "faults s = []" and "faults t = []" and "disk t = disk s"
  shows "active_file_index t = (fst (active_file_index s), t)"
  using afi_pass[OF assms(2), of 0] afi_disk[OF assms, of 0]
  by (simp add: active_file_index_def prod_eq_iff)

lemma check_crc_run:
  assumes cs: "crc_streams cfg" and io: "CRC_LEN \<le> IO_BUFFER_SIZE cfg"
    and d: "file_data s (fil_slot (nvm_file s)) = content @ trailer" and tl: "length trailer = CRC_LEN"
    and tk: "tail_ok cfg (length (content @ trailer))"
    and fz: "fsize (nvm_file s) = length (content @ trailer)"
    and f0: "faults s = []" and op: "fil_open (nvm_file s)"
  shows "\<exists>b. check_persistence_file_crc cfg s =
           Some (if crc32 cfg 0 content = bytes_word trailer then STAT_OK else STAT_PERSISTENCE_ERROR,
                 s\<lparr>nvm_file := (nvm_file s)\<lparr>fptr := fsize (nvm_file s)\<rparr>, io_buffer := b\<rparr>)"
proof -
  define s1 where "s1 = s\<lparr>nvm_file := (nvm_file s)\<lparr>fptr := 0\<rparr>\<rparr>"
  have l: "f_lseek 0 s = (FR_OK, s1)"
    using f0 op by (simp add: f_lseek_def next_fault_def is_fail_def s1_def)
  have "\<exists>b. crc_loop cfg 0 (nan_as_uint32 cfg) s1 =
           Some (STAT_OK, crc32 cfg 0 (drop (fptr (nvm_file s1)) content), bytes_word trailer,
                 s1\<lparr>nvm_file := (nvm_file s1)\<lparr>fptr := fsize (nvm_file s1)\<rparr>, io_buffer := b\<rparr>)"
  proof (rule crc_loop_run[OF cs io _ tl tk])
    show "file_data s1 (fil_slot (nvm_file s1)) = content @ trailer"
      using d by (simp add: s1_def file_data_def)
    show "fsize (nvm_file s1) = length (content @ trailer)" using fz by (simp add: s1_def)
    show "faults s1 = []" using f0 by (simp add: s1_def)
    show "fil_open (nvm_file s1)" using op by (simp add: s1_def)
    show "fptr (nvm_file s1) mod IO_BUFFER_SIZE cfg = 0" by (simp add: s1_def)
    show "fptr (nvm_file s1) < fsize (nvm_file s1)" using fz tl by (simp add: s1_def CRC_LEN_def)
  qed
  then obtain b where
    "crc_loop cfg 0 (nan_as_uint32 cfg) s1 =
       Some (STAT_OK, crc32 cfg 0 content, bytes_word trailer,
             s\<lparr>nvm_file := (nvm_file s)\<lparr>fptr := fsize (nvm_file s)\<rparr>, io_buffer := b\<rparr>)"
    by (auto simp: s1_def)
  with l show ?thesis by (auto simp: check_persistence_file_crc_def)
qed




lemma prepare_run:
  assumes cs: "crc_streams cfg" and io: "CRC_LEN \<le> IO_BUFFER_SIZE cfg"
    and f0: "faults s = []" and cl: "\<not> fil_open (nvm_file s)"
    and ai: "fst (active_file_index s) = i" and i3: "i < PERSISTENCE_FILENAME_CNT"
    and d: "disk s i = Some (content @ trailer)" and tl: "length trailer = CRC_LEN"
    and tk: "tail_ok cfg (length (content @ trailer))"
  shows "\<exists>b. prepare_persistence_file cfg s =
           Some (if crc32 cfg 0 content = bytes_word trailer
                 then (STAT_OK,
                       s\<lparr>fs_type := True, file_index := i, io_buffer := b,
                         nvm_file := \<lparr>fil_open = True, fil_slot = i,
                                      fptr = length (content @ trailer), fsize = length (content @ trailer)\<rparr>,
                         disk := (disk s)((i + PERSISTENCE_FILENAME_CNT - 1) mod PERSISTENCE_FILENAME_CNT := None)\<rparr>)
                 else (STAT_PERSISTENCE_ERROR,
                       s\<lparr>fs_type := True, file_index := 0, io_buffer := b,
                         nvm_file := \<lparr>fil_open = False, fil_slot = i,
                                      fptr = length (content @ trailer), fsize = length (content @ trailer)\<rparr>,
                         disk := (disk s)(i := None)\<rparr>))"
proof -
  define s1 where "s1 = s\<lparr>fs_type := True\<rparr>"
  have m: "(if \<not> fs_type s then f_mount s else (FR_OK, s)) = (FR_OK, s1)"
    using f0 by (auto simp: f_mount_def next_fault_def is_fail_def s1_def)
  have mk: "f_mkdir s1 = (FR_OK, s1)"
    using f0 by (simp add: f_mkdir_def next_fault_def is_fail_def s1_def)
  have af: "active_file_index s1 = (i, s1)"
    using active_file_index_pass[of s s1] f0 ai by (simp add: s1_def)
  define fp where "fp = \<lparr>fil_open = True, fil_slot = i, fptr = 0, fsize = length (content @ trailer)\<rparr>"
  define s5 where "s5 = s1\<lparr>nvm_file := fp, file_index := i\<rparr>"
  have op: "f_open_read i s1 = (FR_OK, s1\<lparr>nvm_file := fp\<rparr>)"
    using f0 d i3 by (simp add: f_open_read_def next_fault_def is_fail_def file_exists_def
        file_data_def s1_def fp_def)
  have "\<exists>b. check_persistence_file_crc cfg s5 =
           Some (if crc32 cfg 0 content = bytes_word trailer then STAT_OK else STAT_PERSISTENCE_ERROR,
                 s5\<lparr>nvm_file := (nvm_file s5)\<lparr>fptr := fsize (nvm_file s5)\<rparr>, io_buffer := b\<rparr>)"
  proof (rule check_crc_run[OF cs io _ tl tk])
    show "file_data s5 (fil_slot (nvm_file s5)) = content @ trailer"
      using d by (simp add: s5_def s1_def fp_def file_data_def)
    show "fsize (nvm_file s5) = length (content @ trailer)" by (simp add: s5_def fp_def)
    show "faults s5 = []" using f0 by (simp add: s5_def s1_def)
    show "fil_open (nvm_file s5)" by (simp add: s5_def fp_def)
  qed
  then obtain b where ck: "check_persistence_file_crc cfg (s1\<lparr>nvm_file := fp\<rparr>\<lparr>file_index := i\<rparr>) =
           Some (if crc32 cfg 0 content = bytes_word trailer then STAT_OK else STAT_PERSISTENCE_ERROR,
                 s5\<lparr>nvm_file := fp\<lparr>fptr := length (content @ trailer)\<rparr>, io_buffer := b\<rparr>)"
    by (auto simp: s5_def fp_def)
  define s6 where "s6 = s5\<lparr>nvm_file := fp\<lparr>fptr := length (content @ trailer)\<rparr>, io_buffer := b\<rparr>"
  have f6: "faults s6 = []" using f0 by (simp add: s6_def s5_def s1_def)
  have cl6: "f_close s6 = (FR_OK, s6\<lparr>nvm_file := (nvm_file s6)\<lparr>fil_open := False\<rparr>\<rparr>)"
    using f6 by (simp add: f_close_def next_fault_def is_fail_def) (simp add: s6_def fp_def)
  have ul: "f_unlink i (s6\<lparr>nvm_file := (nvm_file s6)\<lparr>fil_open := False\<rparr>\<rparr>)
              = (FR_OK, s6\<lparr>nvm_file := (nvm_file s6)\<lparr>fil_open := False\<rparr>, disk := (disk s)(i := None)\<rparr>)"
    using f6 d i3 by (simp add: f_unlink_def next_fault_def is_fail_def file_exists_def)
      (simp add: s6_def s5_def s1_def)
  have up: "snd (f_unlink (PREV_FILE_INDEX s6) s6)
              = s6\<lparr>disk := (disk s)((i + PERSISTENCE_FILENAME_CNT - 1) mod PERSISTENCE_FILENAME_CNT := None)\<rparr>"
  proof -
    have p: "PREV_FILE_INDEX s6 = (i + PERSISTENCE_FILENAME_CNT - 1) mod PERSISTENCE_FILENAME_CNT"
      by (simp add: PREV_FILE_INDEX_def s6_def s5_def)
    have ds: "disk s6 = disk s" by (simp add: s6_def s5_def s1_def)
    show ?thesis
    proof (cases "file_exists s6 (PREV_FILE_INDEX s6)")
      case True
      with f6 p ds show ?thesis by (simp add: f_unlink_def next_fault_def is_fail_def)
    next
      case False
      then have "disk s ((i + PERSISTENCE_FILENAME_CNT - 1) mod PERSISTENCE_FILENAME_CNT) = None"
        using p ds by (simp add: file_exists_def PERSISTENCE_FILENAME_CNT_def)
      then have "(disk s)((i + PERSISTENCE_FILENAME_CNT - 1) mod PERSISTENCE_FILENAME_CNT := None) = disk s"
        by (rule fun_upd_idem)
      with False f6 ds show ?thesis by (simp add: f_unlink_def next_fault_def is_fail_def)
    qed
  qed
  have fi6: "file_index (s6\<lparr>nvm_file := (nvm_file s6)\<lparr>fil_open := False\<rparr>\<rparr>) = i"
    by (simp add: s6_def s5_def)
  have v: "(if f_is_open (nvm_file s) then validate s else (FR_INVALID_OBJECT, s)) = (FR_INVALID_OBJECT, s)"
    using cl by (simp add: f_is_open_def)
  have p: "prepare_persistence_file cfg s =
      (if crc32 cfg 0 content = bytes_word trailer
       then Some (STAT_OK, snd (f_unlink (PREV_FILE_INDEX s6) s6))
       else Some (STAT_PERSISTENCE_ERROR,
              (snd (f_unlink (file_index (snd (f_close s6))) (snd (f_close s6))))\<lparr>file_index := 0\<rparr>))"
    apply (simp only: prepare_persistence_file_def v prod.case FRESULT.distinct simp_thms if_False
        if_True m mk snd_conv af i3 op ck option.case s6_def[symmetric])
    apply (cases "crc32 cfg 0 content = bytes_word trailer")
     apply (simp_all only: if_True if_False stat_t.distinct simp_thms prod.case Let_def)
    done
  show ?thesis
  proof (cases "crc32 cfg 0 content = bytes_word trailer")
    case True
    have "snd (f_unlink (PREV_FILE_INDEX s6) s6) =
            s\<lparr>fs_type := True, file_index := i, io_buffer := b,
               nvm_file := \<lparr>fil_open = True, fil_slot = i,
                                      fptr = length (content @ trailer), fsize = length (content @ trailer)\<rparr>,
               disk := (disk s)((i + PERSISTENCE_FILENAME_CNT - 1) mod PERSISTENCE_FILENAME_CNT := None)\<rparr>"
      unfolding up by (simp add: s6_def s5_def s1_def fp_def)
    with True p show ?thesis by auto
  next
    case False
    have "(snd (f_unlink (file_index (snd (f_close s6))) (snd (f_close s6))))\<lparr>file_index := 0\<rparr> =
            s\<lparr>fs_type := True, file_index := 0, io_buffer := b,
                         nvm_file := \<lparr>fil_open = False, fil_slot = i,
                                      fptr = length (content @ trailer), fsize = length (content @ trailer)\<rparr>,
                         disk := (disk s)(i := None)\<rparr>"
      unfolding cl6 snd_conv fi6 ul by (simp add: s6_def s5_def s1_def fp_def)
    with False p show ?thesis by auto
  qed
qed

lemma xor_one_neq: "(x::32 word) XOR 1 \<noteq> x"
proof
  assume "x XOR 1 = x"
  then have "bit (x XOR 1) 0 = bit x 0" by simp
  then show False by (simp add: bit_xor_iff)
qed

lemma crc32_zlib_streams: "crc_streams cfg200"
  by (simp add: crc_streams_def cfg200_def crc32_zlib_def)

subsection \<open>The accessors return on a card without faults\<close>

lemma afi_found:
  "faults s = [] \<Longrightarrow> i \<le> k \<Longrightarrow> k < PERSISTENCE_FILENAME_CNT \<Longrightarrow> file_exists s k \<Longrightarrow>
     fst (active_file_index_loop i s) < PERSISTENCE_FILENAME_CNT"
proof (induction i s rule: active_file_index_loop.induct)
  case (1 i s)
  from "1.prems" have True: "i < PERSISTENCE_FILENAME_CNT" by simp
  show ?case
  proof (cases "file_exists s i")
    case False
    then have st: "f_stat i s = (FR_NO_FILE, s)" using "1.prems" by (simp add: f_stat_pass)
    from False "1.prems" have "i \<noteq> k" by auto
    with "1.prems" have le: "i + 1 \<le> k" by simp
    from "1.IH"[OF True st[symmetric]] "1.prems" le
    have "fst (active_file_index_loop (i + 1) s) < PERSISTENCE_FILENAME_CNT" by simp
    then show ?thesis using True st by (subst active_file_index_loop.simps) simp
  next
    case ex: True
    then have st: "f_stat i s = (FR_OK, s)" using "1.prems" by (simp add: f_stat_pass)
    have nx: "(i + 1) mod PERSISTENCE_FILENAME_CNT < PERSISTENCE_FILENAME_CNT"
      by (simp add: PERSISTENCE_FILENAME_CNT_def)
    have a: "active_file_index_loop i s =
        (if (i + 1) mod PERSISTENCE_FILENAME_CNT > i \<and> file_exists s ((i + 1) mod PERSISTENCE_FILENAME_CNT)
         then (i + 1) mod PERSISTENCE_FILENAME_CNT else i, s)"
      using True st "1.prems"(1) by (subst active_file_index_loop.simps) (simp add: f_stat_pass Let_def)
    show ?thesis unfolding a using nx True by simp
  qed
qed

lemma prepare_returns:
  assumes fo: "files_ok cfg s" and f0: "faults s = []"
    and ex: "fil_open (nvm_file s) \<or> (\<exists>i<PERSISTENCE_FILENAME_CNT. disk s i \<noteq> None)"
  shows "\<exists>y. prepare_persistence_file cfg s = Some y"
proof (cases "fil_open (nvm_file s)")
  case True
  then have "validate s = (FR_OK, s)"
    using f0 by (simp add: validate_def next_fault_def is_fail_def)
  with True show ?thesis by (simp add: prepare_persistence_file_def f_is_open_def)
next
  case cl: False
  with ex obtain k where k: "k < PERSISTENCE_FILENAME_CNT" "disk s k \<noteq> None" by blast
  define s1 where "s1 = s\<lparr>fs_type := True\<rparr>"
  have m: "(if \<not> fs_type s then f_mount s else (FR_OK, s)) = (FR_OK, s1)"
    using f0 by (auto simp: f_mount_def next_fault_def is_fail_def s1_def)
  have mk: "f_mkdir s1 = (FR_OK, s1)"
    using f0 by (simp add: f_mkdir_def next_fault_def is_fail_def s1_def)
  define i where "i = fst (active_file_index s)"
  have af: "active_file_index s1 = (i, s1)"
    using active_file_index_pass[of s s1] f0 by (simp add: s1_def i_def)
  have "fst (active_file_index_loop 0 s) < PERSISTENCE_FILENAME_CNT"
    by (rule afi_found[OF f0 _ k(1)]) (use k(2) in \<open>simp_all add: file_exists_def\<close>)
  then have i3: "i < PERSISTENCE_FILENAME_CNT"
    unfolding i_def active_file_index_def .
  obtain r2 s4 where op: "f_open_read i s1 = (r2, s4)" by (cases "f_open_read i s1") auto
  have v: "(if f_is_open (nvm_file s) then validate s else (FR_INVALID_OBJECT, s)) = (FR_INVALID_OBJECT, s)"
    using cl by (simp add: f_is_open_def)
  show ?thesis
  proof (cases "r2 = FR_OK")
    case False
    with v m mk af i3 op show ?thesis by (simp add: prepare_persistence_file_def)
  next
    case True
    with op have op': "f_open_read i s1 = (FR_OK, s4)" by simp
    note o = f_open_read_ok[OF op']
    have "tail_ok cfg (length (file_data s i))" using fo i3 by (rule files_ok_tail)
    then have t: "tail_ok cfg (fsize (nvm_file (s4\<lparr>file_index := i\<rparr>)))"
      using o(1) by (simp add: file_data_def s1_def)
    have "CRC_LEN \<le> IO_BUFFER_SIZE cfg" using fo by (simp add: files_ok_def)
    from check_crc_returns[OF this t] obtain y where
      "check_persistence_file_crc cfg (s4\<lparr>file_index := i\<rparr>) = Some y" by blast
    with v m mk af i3 op' show ?thesis
      by (simp add: prepare_persistence_file_def Let_def split: prod.splits)
  qed
qed

lemma read_returns:
  assumes "files_ok cfg s" and "faults s = []"
    and "fil_open (nvm_file s) \<or> (\<exists>i<PERSISTENCE_FILENAME_CNT. disk s i \<noteq> None)"
  shows "\<exists>st x s'. read_persistent_value cfg nv s = Some (st, nv\<lparr>nv_value := x\<rparr>, s')"
proof -
  from prepare_returns[OF assms] obtain st s1 where
    p: "prepare_persistence_file cfg s = Some (st, s1)" by auto
  have "nv = nv\<lparr>nv_value := nv_value nv\<rparr>" by simp
  then have e: "\<And>st' s''. \<exists>sta x s'. (st', nv, s'') = (sta, nv\<lparr>nv_value := x\<rparr>, s')"
    by blast
  show ?thesis
    unfolding read_persistent_value_def p using e
    by (auto split: prod.splits)
qed


lemma write_returns:
  assumes "files_ok cfg s" and "faults s = []"
    and "fil_open (nvm_file s) \<or> (\<exists>i<PERSISTENCE_FILENAME_CNT. disk s i \<noteq> None)"
  shows "\<exists>s'. write_persistent_value cfg nv s = Some (STAT_OK, nv, s')"
proof -
  let ?s0 = "s\<lparr>tmp_value := nv_value nv\<rparr>"
  have "files_ok cfg ?s0" using assms(1) files_ok_disk[of ?s0 s cfg] by simp
  from read_returns[OF this, of nv] assms(2,3) obtain st x s1 where
    r: "read_persistent_value cfg nv ?s0 = Some (st, nv\<lparr>nv_value := x\<rparr>, s1)" by auto
  from kept_read_persistent_value[OF r] have t: "tmp_value s1 = nv_value nv"
    by (simp add: kept_def)
  show ?thesis unfolding write_persistent_value_def r using t by (simp add: Let_def)
qed



lemma pending_state_ok:
  "files_ok cfg200 pending_state" "faults pending_state = []"
  "fil_open (nvm_file pending_state) \<or> (\<exists>i<PERSISTENCE_FILENAME_CNT. disk pending_state i \<noteq> None)"
proof -
  show "files_ok cfg200 pending_state"
    by (simp add: files_ok_def tail_ok_def file_data_def pending_state_def valid_card_def gen200_def
        run_defs CRC_LEN_def)
  show "faults pending_state = []" by (simp add: pending_state_def init_state_def)
  have "0 < PERSISTENCE_FILENAME_CNT \<and> disk pending_state 0 \<noteq> None"
    by (simp add: pending_state_def valid_card_def init_state_def PERSISTENCE_FILENAME_CNT_def)
  then show "fil_open (nvm_file pending_state) \<or> (\<exists>i<PERSISTENCE_FILENAME_CNT. disk pending_state i \<noteq> None)"
    by blast
qed

section \<open>The claims\<close>

text \<open>
  C5. Empty-store default. The specification and the comment of \<open>active_file_index\<close>
  say that slot 0 is returned when none of the three generation files exists. The loop
  leaves its variable at \<open>PERSISTENCE_FILENAME_CNT\<close> in that case, so the function
  returns 3, whatever the faults of the driver.
\<close>

theorem active_file_index_empty_store:
  assumes "\<forall>i<PERSISTENCE_FILENAME_CNT. disk s i = None"
  shows "fst (active_file_index s) = 3"
proof -
  have st: "\<And>i t. i < PERSISTENCE_FILENAME_CNT \<Longrightarrow> disk t = disk s \<Longrightarrow>
              fst (f_stat i t) \<noteq> FR_OK \<and> disk (snd (f_stat i t)) = disk s"
    using assms by (auto simp: f_stat_def next_fault_def file_exists_def split: list.splits)
  have "disk t = disk s \<Longrightarrow> i \<le> 3 \<Longrightarrow> fst (active_file_index_loop i t) = 3" for i t
  proof (induction i t rule: active_file_index_loop.induct)
    case (1 i t)
    show ?case
    proof (cases "i < PERSISTENCE_FILENAME_CNT")
      case False
      with "1.prems" show ?thesis by (simp add: PERSISTENCE_FILENAME_CNT_def)
    next
      case True
      obtain r t1 where f: "f_stat i t = (r, t1)" by (cases "f_stat i t")
      with st[OF True "1.prems"(1)] have r: "r \<noteq> FR_OK" and d: "disk t1 = disk s" by auto
      from True have "i + 1 \<le> 3" by (simp add: PERSISTENCE_FILENAME_CNT_def)
      with "1.IH"[OF True f[symmetric] r d] have "fst (active_file_index_loop (i + 1) t1) = 3" .
      with True f r show ?thesis by simp
    qed
  qed
  from this[of s 0] show ?thesis by (simp add: active_file_index_def)
qed

text \<open>The start state on an empty card satisfies the hypothesis.\<close>

theorem active_file_index_empty_store_witness:
  "fst (active_file_index (init_state cfg200 (\<lambda>i. None))) = 3"
proof -
  have h: "\<forall>i<PERSISTENCE_FILENAME_CNT. disk (init_state cfg200 (\<lambda>i. None)) i = None"
    by (simp add: init_state_def)
  from active_file_index_empty_store[OF h] show ?thesis .
qed

text \<open>
  C3. Last write wins in the cache. The claim fails on the code: \<open>std::map::insert\<close>
  leaves the map as it is when the key is present, so a write for an index that already
  has a pending entry never changes the cache; the entry keeps the value written first,
  whatever the later value is.
\<close>

theorem write_keeps_pending_entry:
  assumes "cache_ok (write_cache s)" and "(nv_index nv, v1) \<in> set (write_cache s)"
    and "write_persistent_value cfg nv s = Some (st, nv', s')"
  shows "write_cache s' = write_cache s"
proof -
  from assms(3) obtain st1 nv1 s1 where
    r: "read_persistent_value cfg nv (s\<lparr>tmp_value := nv_value nv\<rparr>) = Some (st1, nv1, s1)"
    by (auto simp: write_persistent_value_def split: option.splits)
  have k: "write_cache s1 = write_cache s"
    using kept_read_persistent_value[OF r] by (simp add: kept_def)
  have i: "nv_index nv1 = nv_index nv"
    using r by (auto simp: read_persistent_value_def split: option.splits prod.splits if_splits)
  have "map_insert (nv_index nv1, tmp_value s1) (write_cache s1) = write_cache s1"
  proof (rule map_insert_present)
    show "cache_ok (write_cache s1)" using assms(1) k by simp
    have "fst (nv_index nv, v1) \<in> fst ` set (write_cache s)"
      using assms(2) by (rule imageI)
    then show "nv_index nv1 \<in> fst ` set (write_cache s1)" using k i by simp
  qed
  with assms(3) r k show ?thesis
    by (auto simp: write_persistent_value_def Let_def split: if_splits)
qed

text \<open>A second write for index 7, of 2.0, leaves the pending 1.0 in the cache.\<close>

theorem write_keeps_pending_entry_witness:
  "\<exists>nv' s'. write_persistent_value cfg200 \<lparr>nv_index = 7, nv_value = 0x40000000\<rparr> pending_state
             = Some (STAT_OK, nv', s') \<and> write_cache s' = [(7, 0x3F800000)]"
proof -
  have a: "cache_ok (write_cache pending_state)"
    by (simp add: pending_state_def cache_ok_def)
  have b: "(nv_index \<lparr>nv_index = 7, nv_value = 0x40000000\<rparr>, 0x3F800000) \<in> set (write_cache pending_state)"
    by (simp add: pending_state_def)
  have "\<exists>nv' s'. write_persistent_value cfg200 \<lparr>nv_index = 7, nv_value = 0x40000000\<rparr> pending_state
             = Some (STAT_OK, nv', s')"
    using write_returns[OF pending_state_ok] by blast
  then obtain nv' s' where
    w: "write_persistent_value cfg200 \<lparr>nv_index = 7, nv_value = 0x40000000\<rparr> pending_state = Some (STAT_OK, nv', s')"
    by blast
  from write_keeps_pending_entry[OF a b w] w show ?thesis
    by (auto simp: pending_state_def)
qed

text \<open>
  C4. Busy refusal. As stated the claim fails for \<open>write_persistent_value\<close>: on the
  file-based backend it has no test of the cycle state. While the machine is moving it
  returns \<open>STAT_OK\<close>, reports no exception, stages the value in the cache, and its read
  of the current value deletes a generation file whose checksum does not match.
\<close>

theorem write_while_moving_counterexample:
  "cycle_state moving_state \<noteq> CYCLE_OFF \<and>
   map_option fst (write_persistent_value cfg200 \<lparr>nv_index = 7, nv_value = 0x3F800000\<rparr> moving_state)
     = Some STAT_OK \<and>
   map_option (write_cache \<circ> snd \<circ> snd)
       (write_persistent_value cfg200 \<lparr>nv_index = 7, nv_value = 0x3F800000\<rparr> moving_state)
     = Some [(7, 0x3F800000)] \<and>
   map_option (exceptions \<circ> snd \<circ> snd)
       (write_persistent_value cfg200 \<lparr>nv_index = 7, nv_value = 0x3F800000\<rparr> moving_state)
     = Some [] \<and>
   disk moving_state 0 = Some [1, 0, 0, 0] \<and>
   map_option ((\<lambda>s. disk s 0) \<circ> snd \<circ> snd)
       (write_persistent_value cfg200 \<lparr>nv_index = 7, nv_value = 0x3F800000\<rparr> moving_state)
     = Some None"
  by (simp add: moving_state_def pf_defs run_defs fs_defs crc_loop.simps bytes_word_def)

text \<open>
  C4 as amended: while the cycle state is not \<open>CYCLE_OFF\<close> the batch flush
  \<open>write_persistent_values\<close> is refused at once with \<open>STAT_FILE_NOT_OPEN\<close>, reported
  through \<open>rpt_exception\<close>; the files, the cache and the rest of the state stay as they
  were.
\<close>

theorem flush_refused_while_moving:
  assumes "cycle_state s \<noteq> CYCLE_OFF"
  shows "write_persistent_values cfg s =
           Some (STAT_FILE_NOT_OPEN, s\<lparr>exceptions := exceptions s @ [STAT_FILE_NOT_OPEN]\<rparr>)"
  using assms by (rule write_persistent_values_busy)

theorem flush_refused_while_moving_witness:
  "write_persistent_values cfg200 moving_state =
     Some (STAT_FILE_NOT_OPEN, moving_state\<lparr>exceptions := [STAT_FILE_NOT_OPEN]\<rparr>)"
proof -
  have a: "cycle_state moving_state \<noteq> CYCLE_OFF" by (simp add: moving_state_def)
  have b: "exceptions moving_state = []" by (simp add: moving_state_def init_state_def)
  from flush_refused_while_moving[OF a, of cfg200] b show ?thesis by simp
qed

text \<open>
  C7. Failure-budget drop. When the scheduler runs a flush (the cache is not empty and
  the minimum interval has passed): after a successful flush the cache is empty and the
  failure counter is 0; after a failed flush the counter is one more than before and the
  cache is as before, unless the counter thereby reaches \<open>MAX_WRITE_FAILURES\<close>: then the
  cache is cleared and the counter reset to 0. The scheduler returns \<open>STAT_OK\<close> in each
  case.
\<close>

theorem failure_budget:
  assumes "write_cache s \<noteq> []" and "\<not> t0 - last_write_systick s < MIN_WRITE_INTERVAL cfg"
    and "write_persistent_values cfg s = Some (st, s1)"
  shows "\<exists>s'. write_persistent_values_callback cfg t0 t1 s = Some (STAT_OK, s') \<and>
           (if st = STAT_OK then write_cache s' = [] \<and> write_failures s' = 0
            else if write_failures s + 1 \<ge> MAX_WRITE_FAILURES cfg
                 then write_cache s' = [] \<and> write_failures s' = 0
                 else write_cache s' = write_cache s \<and> write_failures s' = write_failures s + 1)"
proof -
  have c: "write_cache s1 = write_cache s"
    using write_persistent_values_frame[OF assms(3)] by simp
  show ?thesis
    unfolding callback_after_flush[OF assms] using c by (simp add: cache_after_unlink)
qed

text \<open>A flush on a card that has stopped answering: the counter goes from 0 to 1, the cache stays.\<close>

theorem failure_budget_witness:
  "\<exists>s'. write_persistent_values_callback cfg200 5000 5001 disk_error_state = Some (STAT_OK, s') \<and>
        write_cache s' = [(7, 0x3F800000)] \<and> write_failures s' = 1"
proof -
  obtain s1 where f: "write_persistent_values cfg200 disk_error_state = Some (STAT_PERSISTENCE_ERROR, s1)"
    using disk_error_flush by blast
  have a: "write_cache disk_error_state \<noteq> []"
    by (simp add: disk_error_state_def pending_state_def)
  have b: "\<not> 5000 - last_write_systick disk_error_state < MIN_WRITE_INTERVAL cfg200"
    by (simp add: disk_error_state_def pending_state_def run_defs)
  from failure_budget[OF a b f, of 5001] show ?thesis
    by (simp add: disk_error_state_def pending_state_def run_defs)
qed

text \<open>
  C8. Cache frame condition. Whatever \<open>write_persistent_values\<close> returns, the live write
  cache is the one it started with; and when the flush fails below the failure budget,
  the cache after the scheduler's call is still the one before the attempt.
\<close>

theorem flush_keeps_live_cache:
  assumes "write_persistent_values cfg s = Some (st, s')"
  shows "write_cache s' = write_cache s \<and>
         (st \<noteq> STAT_OK \<and> write_failures s + 1 < MAX_WRITE_FAILURES cfg \<longrightarrow>
            (\<exists>r s''. write_persistent_values_callback cfg t0 t1 s = Some (r, s'') \<and>
                     write_cache s'' = write_cache s))"
proof -
  have c: "write_cache s' = write_cache s"
    using write_persistent_values_frame[OF assms] by simp
  have "\<exists>r s''. write_persistent_values_callback cfg t0 t1 s = Some (r, s'') \<and>
                     write_cache s'' = write_cache s"
    if ne: "st \<noteq> STAT_OK" and b: "write_failures s + 1 < MAX_WRITE_FAILURES cfg"
  proof (cases "write_cache s \<noteq> [] \<and> \<not> t0 - last_write_systick s < MIN_WRITE_INTERVAL cfg")
    case True
    then show ?thesis
      using callback_after_flush[of s t0 cfg st s' t1] assms ne b c
      by (simp add: cache_after_unlink)
  next
    case False
    then show ?thesis
      by (auto simp add: write_persistent_values_callback_def f_polldisk_def Let_def)
  qed
  with c show ?thesis by blast
qed

theorem flush_keeps_live_cache_witness:
  "\<exists>s'. write_persistent_values cfg200 disk_error_state = Some (STAT_PERSISTENCE_ERROR, s') \<and>
        write_cache s' = [(7, 0x3F800000)] \<and>
        (\<exists>r s''. write_persistent_values_callback cfg200 5000 5001 disk_error_state = Some (r, s'') \<and>
                 write_cache s'' = [(7, 0x3F800000)])"
proof -
  obtain s1 where f: "write_persistent_values cfg200 disk_error_state = Some (STAT_PERSISTENCE_ERROR, s1)"
    using disk_error_flush by blast
  have b: "write_failures disk_error_state + 1 < MAX_WRITE_FAILURES cfg200"
    by (simp add: disk_error_state_def pending_state_def run_defs)
  have c: "write_cache disk_error_state = [(7, 0x3F800000)]"
    by (simp add: disk_error_state_def pending_state_def)
  from flush_keeps_live_cache[OF f, of 5000 5001] b c f show ?thesis by auto
qed




text \<open>
  C6. Corruption handling. Let \<open>prepare_persistence_file\<close> run on a card without driver
  faults with \<open>nvm.file\<close> not open, and let the file that \<open>active_file_index\<close> selects
  be \<open>content @ trailer\<close> with a 4-byte trailer that differs from the CRC32 of the content
  (the file being of a length \<open>tail_ok\<close> for the chunked scan). Then the function
  returns \<open>STAT_PERSISTENCE_ERROR\<close>, the file object is closed, the file is deleted and
  \<open>nvm.file_index\<close> is 0.
\<close>

theorem corrupted_generation_rejected:
  assumes "crc_streams cfg" and "CRC_LEN \<le> IO_BUFFER_SIZE cfg"
    and "faults s = []" and "\<not> fil_open (nvm_file s)"
    and "fst (active_file_index s) = i" and "i < PERSISTENCE_FILENAME_CNT"
    and "disk s i = Some (content @ trailer)" and "length trailer = CRC_LEN"
    and "tail_ok cfg (length (content @ trailer))"
    and "crc32 cfg 0 content \<noteq> bytes_word trailer"
  shows "\<exists>s'. prepare_persistence_file cfg s = Some (STAT_PERSISTENCE_ERROR, s') \<and>
              file_index s' = 0 \<and> \<not> fil_open (nvm_file s') \<and> disk s' = (disk s)(i := None)"
proof -
  from prepare_run[OF assms(1-9)] assms(10) obtain b where
    "prepare_persistence_file cfg s =
       Some (STAT_PERSISTENCE_ERROR,
             s\<lparr>fs_type := True, file_index := 0, io_buffer := b,
               nvm_file := \<lparr>fil_open = False, fil_slot = i,
                            fptr = length (content @ trailer), fsize = length (content @ trailer)\<rparr>,
               disk := (disk s)(i := None)\<rparr>)"
    by auto
  then show ?thesis by simp
qed

text \<open>A generation file whose trailer has one bit flipped is rejected and deleted.\<close>

theorem corrupted_generation_rejected_witness:
  "\<exists>s'. prepare_persistence_file cfg200 corrupt_state = Some (STAT_PERSISTENCE_ERROR, s') \<and>
        file_index s' = 0 \<and> \<not> fil_open (nvm_file s') \<and> disk s' = (\<lambda>i. None)"
proof -
  have a: "CRC_LEN \<le> IO_BUFFER_SIZE cfg200" by (simp add: cfg200_def CRC_LEN_def)
  have b: "faults corrupt_state = []" by (simp add: corrupt_state_def init_state_def)
  have c: "\<not> fil_open (nvm_file corrupt_state)" by (simp add: corrupt_state_def init_state_def)
  have d: "fst (active_file_index corrupt_state) = 1"
    by (simp add: corrupt_state_def init_state_def active_file_index_def fs_defs)
  have e: "(1::nat) < PERSISTENCE_FILENAME_CNT" by (simp add: PERSISTENCE_FILENAME_CNT_def)
  have f: "disk corrupt_state 1 = Some (gen200 @ word_bytes (crc32_zlib 0 gen200 XOR 1))"
    by (simp add: corrupt_state_def init_state_def)
  have g: "length (word_bytes (crc32_zlib 0 gen200 XOR 1)) = CRC_LEN" by (simp add: CRC_LEN_def)
  have h: "tail_ok cfg200 (length (gen200 @ word_bytes (crc32_zlib 0 gen200 XOR 1)))"
    by (simp add: tail_ok_def cfg200_def gen200_def CRC_LEN_def)
  have k: "crc32 cfg200 0 gen200 \<noteq> bytes_word (word_bytes (crc32_zlib 0 gen200 XOR 1))"
    using xor_one_neq[of "crc32_zlib 0 gen200"] by (simp add: cfg200_def)
  have "(disk corrupt_state)(1 := None) = (\<lambda>i. None)"
    by (simp add: corrupt_state_def init_state_def)
  with corrupted_generation_rejected[OF crc32_zlib_streams a b c d e f g h k]
  show ?thesis by simp
qed

end
